theory Spec2Isabelle
  imports Complex_Main
begin

section \<open>Numbers and strings of the host language\<close>

text \<open>
  Durations and timestamps are JavaScript numbers, that is IEEE doubles. A
  number is modelled as the real it denotes; NaN and the infinities are not
  represented. In \<open>formatTimestamp\<close>, where a printed digit depends on it,
  the division and the multiplication round their exact result to the nearest
  double (\<open>fl\<close> below). The arithmetic of the scheduler, of the composer and
  of the effect is taken exactly, without rounding. Loop counters and array
  indices are natural numbers.
\<close>

text \<open>The remainder operator \<open>%\<close>: the quotient is truncated towards zero, so
  the result carries the sign of the dividend.\<close>

definition js_trunc :: "real \<Rightarrow> int" where
  "js_trunc x = (if 0 \<le> x then \<lfloor>x\<rfloor> else \<lceil>x\<rceil>)"

definition js_rem :: "real \<Rightarrow> real \<Rightarrow> real" where
  "js_rem x y = x - y * of_int (js_trunc (x / y))"

text \<open>
  Rounding to the nearest double, ties to the even significand. A double is a
  multiple of its unit in the last place, which is \<open>2 powi (e - 52)\<close> for a
  number from \<open>2 powi e\<close> up to \<open>2 powi (e + 1)\<close> and \<open>2 powi (- 1074)\<close>
  below \<open>2 powi (- 1022)\<close>; numbers of \<open>2 powi 1024\<close> and more, which round
  to infinity, are outside the model. A number literal, and a number read
  from JSON or from the output of \<open>ffprobe\<close>, is the decimal rounded in this
  way, and a real \<open>x\<close> is a double exactly when \<open>fl x = x\<close>. The remainder
  \<open>%\<close> and \<open>Math.floor\<close> of doubles are exact.
\<close>

fun log2_nat :: "nat \<Rightarrow> nat" where
  "log2_nat n = (if n < 2 then 0 else Suc (log2_nat (n div 2)))"

declare log2_nat.simps [simp del]

definition binade :: "real \<Rightarrow> int" where
  "binade x =
     (if 1 \<le> x then int (log2_nat (nat \<lfloor>x\<rfloor>))
      else - int (log2_nat (nat \<lceil>1 / x\<rceil> - 1)) - 1)"

definition round_even :: "real \<Rightarrow> int" where
  "round_even y =
     (let n = \<lfloor>y\<rfloor>; d = y - of_int n
      in if d < 1 / 2 then n
         else if 1 / 2 < d then n + 1
         else if even n then n else n + 1)"

definition ulp :: "real \<Rightarrow> real" where
  "ulp x = 2 powi (max (binade \<bar>x\<bar>) (- 1022) - 52)"

definition fl :: "real \<Rightarrow> real" where
  "fl x = (if x = 0 then 0 else ulp x * of_int (round_even (x / ulp x)))"

text \<open>
  \<open>String(n)\<close> for a non-negative integer \<open>n\<close> is its decimal notation
  (integers of 21 digits and more, which JavaScript prints with an exponent,
  are outside the model), \<open>s.padStart(w, '0')\<close> fills up to width \<open>w\<close> on the
  left and never shortens, \<open>s.endsWith(t)\<close> compares the tail of \<open>s\<close>, and
  \<open>xs.join(sep)\<close> puts \<open>sep\<close> between the elements. \<open>path.join\<close> is used
  with a directory that has no trailing slash.
\<close>

definition digit_char :: "nat \<Rightarrow> char" where
  "digit_char d = ''0123456789'' ! d"

fun js_String :: "nat \<Rightarrow> string" where
  "js_String n = (if n < 10 then [digit_char n] else js_String (n div 10) @ [digit_char (n mod 10)])"

declare js_String.simps [simp del]

definition padStart :: "nat \<Rightarrow> char \<Rightarrow> string \<Rightarrow> string" where
  "padStart targetLength c s = replicate (targetLength - length s) c @ s"

definition endsWith :: "string \<Rightarrow> string \<Rightarrow> bool" where
  "endsWith s t = (length t \<le> length s \<and> drop (length s - length t) s = t)"

fun join :: "string \<Rightarrow> string list \<Rightarrow> string" where
  "join sep [] = []"
| "join sep [x] = x"
| "join sep (x # y # ys) = x @ sep @ join sep (y # ys)"

definition path_join :: "string \<Rightarrow> string \<Rightarrow> string" where
  "path_join dir name = dir @ ''/'' @ name"

section \<open>Insertion point scheduler\<close>

text \<open>
  \<open>calculateInsertionPoints(totalDuration, count)\<close>, identical in every
  variant of the handler. The \<open>for\<close> loop over \<open>i = 1 .. count\<close> pushes one
  point per iteration; the function has no failure path.
\<close>

definition startBuffer :: real where
  "startBuffer = 3"

definition endBuffer :: real where
  "endBuffer = 3"

function points_loop :: "real \<Rightarrow> nat \<Rightarrow> nat \<Rightarrow> real list \<Rightarrow> real list" where
  "points_loop interval count i points =
     (if i \<le> count
      then points_loop interval count (i + 1) (points @ [startBuffer + interval * real i])
      else points)"
  by pat_completeness auto
termination
  by (relation "measure (\<lambda>(interval, count, i, points). Suc count - i)") auto

declare points_loop.simps [simp del]

definition calculateInsertionPoints :: "real \<Rightarrow> nat \<Rightarrow> real list" where
  "calculateInsertionPoints totalDuration count =
     (let usableDuration = totalDuration - startBuffer - endBuffer;
          interval = usableDuration / real (count + 1)
      in points_loop interval count 1 [])"

section \<open>Properties of the scheduler\<close>

lemma points_loop_eq:
  "points_loop interval count i points =
     points @ map (\<lambda>k. startBuffer + interval * real k) [i..<Suc count]"
proof (induction interval count i points rule: points_loop.induct)
  case (1 interval count i points)
  show ?case
  proof (cases "i \<le> count")
    case True
    then have "[i..<Suc count] = i # [Suc i..<Suc count]"
      by (simp add: upt_conv_Cons)
    with True "1" show ?thesis
      by (subst points_loop.simps) simp
  next
    case False
    then show ?thesis
      by (subst points_loop.simps) simp
  qed
qed

lemma calculateInsertionPoints_eq:
  "calculateInsertionPoints totalDuration count =
     map (\<lambda>k. startBuffer + (totalDuration - startBuffer - endBuffer) / real (count + 1) * real k)
       [1..<Suc count]"
  by (simp add: calculateInsertionPoints_def Let_def points_loop_eq)

lemma calculateInsertionPoints_length:
  "length (calculateInsertionPoints totalDuration count) = count"
  by (simp add: calculateInsertionPoints_eq)

lemma calculateInsertionPoints_nth:
  assumes "i < count"
  shows "calculateInsertionPoints totalDuration count ! i =
           startBuffer + (totalDuration - startBuffer - endBuffer) / real (count + 1) * real (i + 1)"
proof -
  from assms have "1 + i < Suc count"
    by simp
  then have k: "[1..<Suc count] ! i = 1 + i"
    by (rule nth_upt)
  from assms have "i < length [1..<Suc count]"
    by simp
  then have "map (\<lambda>k. startBuffer + (totalDuration - startBuffer - endBuffer) / real (count + 1) * real k)
               [1..<Suc count] ! i =
             startBuffer + (totalDuration - startBuffer - endBuffer) / real (count + 1) * real ([1..<Suc count] ! i)"
    by (rule nth_map)
  then show ?thesis
    unfolding calculateInsertionPoints_eq k by (simp only: add.commute)
qed


lemma interval_pos:
  assumes "startBuffer + endBuffer < totalDuration"
  shows "0 < (totalDuration - startBuffer - endBuffer) / real (count + 1)"
proof -
  from assms have "0 < totalDuration - startBuffer - endBuffer"
    by simp
  moreover have "0 < real (count + 1)"
    by simp
  ultimately show ?thesis
    by (rule divide_pos_pos)
qed

lemma scaled_index_less:
  fixes d :: real
  assumes "0 < d" and "i < j"
  shows "startBuffer + d * real i < startBuffer + d * real j"
  using assms by simp

lemma point_below_end:
  fixes u :: real
  assumes "0 < u" and "k \<le> count"
  shows "u / real (count + 1) * real k < u"
proof -
  from assms(2) have "real k < real (count + 1)"
    by simp
  with assms(1) have "u * real k < u * real (count + 1)"
    by (simp only: mult_less_cancel_left_pos)
  then have "u * real k / real (count + 1) < u"
    by (simp add: pos_divide_less_eq)
  then show ?thesis
    by simp
qed

text \<open>
  Claim C2. Whenever the source is longer than the two buffers, the scheduler
  returns exactly \<open>count\<close> points, the point with 1-based index \<open>i\<close> is
  \<open>startBuffer + (usable / (count + 1)) * i\<close>, the points are strictly
  increasing and every one lies strictly between \<open>startBuffer\<close> and
  \<open>totalDuration - endBuffer\<close>; a 30 second source with two cutaways gives the
  points 11 and 19.
\<close>

theorem scheduler_points:
  assumes "startBuffer + endBuffer < totalDuration"
  shows "length (calculateInsertionPoints totalDuration count) = count
       \<and> (\<forall>i. 1 \<le> i \<and> i \<le> count \<longrightarrow>
            calculateInsertionPoints totalDuration count ! (i - 1) =
              startBuffer + (totalDuration - startBuffer - endBuffer) / real (count + 1) * real i)
       \<and> sorted_wrt (<) (calculateInsertionPoints totalDuration count)
       \<and> (\<forall>p \<in> set (calculateInsertionPoints totalDuration count).
            startBuffer < p \<and> p < totalDuration - endBuffer)
       \<and> startBuffer = 3 \<and> endBuffer = 3
       \<and> calculateInsertionPoints 30 2 = [11, 19]"
proof -
  let ?u = "totalDuration - startBuffer - endBuffer"
  let ?d = "?u / real (count + 1)"
  let ?ps = "calculateInsertionPoints totalDuration count"
  have d_pos: "0 < ?d"
    using assms by (rule interval_pos)
  have u_pos: "0 < ?u"
    using assms by simp
  have len: "length ?ps = count"
    by (rule calculateInsertionPoints_length)
  have nth: "?ps ! (i - 1) = startBuffer + ?d * real i" if "1 \<le> i \<and> i \<le> count" for i
  proof -
    from that have "i - 1 < count" and "i - 1 + 1 = i"
      by auto
    then show ?thesis
      using calculateInsertionPoints_nth [of "i - 1" count totalDuration] by simp
  qed
  have incr: "sorted_wrt (<) ?ps"
  proof -
    have "?ps ! i < ?ps ! j" if "i < j" and "j < length ?ps" for i j
    proof -
      from that len have "i < count" and "j < count"
        by simp_all
      then have "?ps ! i = startBuffer + ?d * real (i + 1)"
        and "?ps ! j = startBuffer + ?d * real (j + 1)"
        by (simp_all only: calculateInsertionPoints_nth)
      moreover from that(1) have "i + 1 < j + 1"
        by simp
      then have "startBuffer + ?d * real (i + 1) < startBuffer + ?d * real (j + 1)"
        by (rule scaled_index_less [OF d_pos])
      ultimately show ?thesis
        by (simp only:)
    qed
    then show ?thesis
      by (simp only: sorted_wrt_iff_nth_less) blast
  qed
  have inside: "startBuffer < p \<and> p < totalDuration - endBuffer" if "p \<in> set ?ps" for p
  proof -
    from that obtain i where i: "i < count" and p: "p = ?ps ! i"
      using len by (metis in_set_conv_nth)
    from i have p_eq: "p = startBuffer + ?d * real (i + 1)"
      unfolding p by (rule calculateInsertionPoints_nth)
    have "0 < real (i + 1)"
      by simp
    with d_pos have "0 < ?d * real (i + 1)"
      by (rule mult_pos_pos)
    moreover from i have "i + 1 \<le> count"
      by simp
    with u_pos have "?d * real (i + 1) < ?u"
      by (rule point_below_end)
    ultimately show ?thesis
      unfolding p_eq by simp
  qed
  have scenario: "calculateInsertionPoints 30 2 = [11, 19]"
    by (simp add: calculateInsertionPoints_eq startBuffer_def endBuffer_def upt_rec)
  from len nth incr inside scenario show ?thesis
    by (simp only: startBuffer_def endBuffer_def) blast
qed

theorem scheduler_points_witness:
  "startBuffer + endBuffer < 30
   \<and> length (calculateInsertionPoints 30 2) = 2
   \<and> calculateInsertionPoints 30 2 ! (1 - 1) = startBuffer + (30 - startBuffer - endBuffer) / real (2 + 1) * real 1
   \<and> sorted_wrt (<) (calculateInsertionPoints 30 2)
   \<and> calculateInsertionPoints 30 2 = [11, 19]"
proof -
  have h: "startBuffer + endBuffer < 30"
    by (simp add: startBuffer_def endBuffer_def)
  from scheduler_points [OF h, of 2] show ?thesis
    by (simp add: startBuffer_def endBuffer_def)
qed


section \<open>Segment composer\<close>

text \<open>
  A B-roll clip as \<open>getRandomBrollClips\<close> builds it
  (\<open>{ localPath, duration, key }\<close>) and a timeline segment as
  \<open>buildSegments\<close> builds it (\<open>{ type, input, start, duration }\<close>, with
  \<open>type\<close> one of the strings \<open>'avatar'\<close> and \<open>'broll'\<close>).
\<close>

record clip =
  clip_localPath :: string
  clip_duration :: real
  clip_key :: string

datatype seg_type = Avatar | Broll

record segment =
  seg_type :: seg_type
  seg_input :: string
  seg_start :: real
  seg_duration :: real

text \<open>
  The exceptions the modelled code can raise: the \<open>Error\<close> thrown by
  \<open>getRandomBrollClips\<close> on an empty listing, and the \<open>TypeError\<close> of
  reading \<open>broll.duration\<close> when \<open>brollClips[i]\<close> is \<open>undefined\<close>.
\<close>

datatype error = NoBrollClipsFound | TypeError

definition maxBrollDuration :: real where
  "maxBrollDuration = 4"

definition brollDuration :: "clip \<Rightarrow> real" where
  "brollDuration broll = min (clip_duration broll) maxBrollDuration"

definition avatar_segment :: "string \<Rightarrow> real \<Rightarrow> real \<Rightarrow> segment" where
  "avatar_segment avatarVideo currentTime d =
     \<lparr>seg_type = Avatar, seg_input = avatarVideo, seg_start = currentTime, seg_duration = d\<rparr>"

definition broll_segment :: "clip \<Rightarrow> segment" where
  "broll_segment broll =
     \<lparr>seg_type = Broll, seg_input = clip_localPath broll, seg_start = 0,
      seg_duration = brollDuration broll\<rparr>"

text \<open>
  \<open>buildSegments(avatarVideo, brollClips, insertionPoints, totalDuration)\<close>.
  The loop runs over the indices of \<open>insertionPoints\<close> and carries
  \<open>currentTime\<close> and \<open>segments\<close>; it returns both for the code after the loop.
\<close>

function buildSegments_loop ::
  "string \<Rightarrow> clip list \<Rightarrow> real list \<Rightarrow> nat \<Rightarrow> real \<Rightarrow> segment list \<Rightarrow> error + (real \<times> segment list)"
where
  "buildSegments_loop avatarVideo brollClips insertionPoints i currentTime segments =
     (if i < length insertionPoints then
        (let insertAt = insertionPoints ! i;
             segments1 =
               (if insertAt > currentTime
                then segments @ [avatar_segment avatarVideo currentTime (insertAt - currentTime)]
                else segments)
         in if i < length brollClips then
              (let broll = brollClips ! i
               in buildSegments_loop avatarVideo brollClips insertionPoints (i + 1)
                    (insertAt + brollDuration broll) (segments1 @ [broll_segment broll]))
            else Inl TypeError)
      else Inr (currentTime, segments))"
  by pat_completeness auto
termination
  by (relation "measure (\<lambda>(avatarVideo, brollClips, insertionPoints, i, currentTime, segments).
        length insertionPoints - i)") auto

declare buildSegments_loop.simps [simp del]

definition buildSegments :: "string \<Rightarrow> clip list \<Rightarrow> real list \<Rightarrow> real \<Rightarrow> error + segment list" where
  "buildSegments avatarVideo brollClips insertionPoints totalDuration =
     (case buildSegments_loop avatarVideo brollClips insertionPoints 0 0 [] of
        Inl e \<Rightarrow> Inl e
      | Inr (currentTime, segments) \<Rightarrow>
          Inr (if currentTime < totalDuration
               then segments @ [avatar_segment avatarVideo currentTime (totalDuration - currentTime)]
               else segments))"

text \<open>
  \<open>buildAndExtractVideoSegments\<close> of the replace variant of the handler. It
  runs one extraction command per segment and returns the segment files in
  order; the model returns, in the same order, the segment each command
  extracts: its input, its \<open>-ss\<close> offset (0 for a clip) and its \<open>-t\<close>
  duration. The clip is read before the avatar part is extracted.
\<close>

function buildAndExtract_loop ::
  "string \<Rightarrow> clip list \<Rightarrow> real list \<Rightarrow> nat \<Rightarrow> real \<Rightarrow> segment list \<Rightarrow> error + (real \<times> segment list)"
where
  "buildAndExtract_loop avatarVideo brollClips insertionPoints i currentTime segmentFiles =
     (if i < length insertionPoints then
        (let insertAt = insertionPoints ! i
         in if i < length brollClips then
              (let broll = brollClips ! i;
                   avatarDuration = insertAt - currentTime;
                   segmentFiles1 =
                     (if avatarDuration > 0
                      then segmentFiles @ [avatar_segment avatarVideo currentTime avatarDuration]
                      else segmentFiles)
               in buildAndExtract_loop avatarVideo brollClips insertionPoints (i + 1)
                    (insertAt + brollDuration broll) (segmentFiles1 @ [broll_segment broll]))
            else Inl TypeError)
      else Inr (currentTime, segmentFiles))"
  by pat_completeness auto
termination
  by (relation "measure (\<lambda>(avatarVideo, brollClips, insertionPoints, i, currentTime, segmentFiles).
        length insertionPoints - i)") auto

declare buildAndExtract_loop.simps [simp del]

definition buildAndExtractVideoSegments ::
  "string \<Rightarrow> clip list \<Rightarrow> real list \<Rightarrow> real \<Rightarrow> error + segment list"
where
  "buildAndExtractVideoSegments avatarVideo brollClips insertionPoints totalDuration =
     (case buildAndExtract_loop avatarVideo brollClips insertionPoints 0 0 [] of
        Inl e \<Rightarrow> Inl e
      | Inr (currentTime, segmentFiles) \<Rightarrow>
          (let remainingDuration = totalDuration - currentTime
           in Inr (if remainingDuration > 0
                   then segmentFiles @ [avatar_segment avatarVideo currentTime remainingDuration]
                   else segmentFiles)))"

definition durations_sum :: "segment list \<Rightarrow> real" where
  "durations_sum segments = sum_list (map seg_duration segments)"

section \<open>Properties of the composer\<close>

lemma buildAndExtract_loop_eq:
  "buildAndExtract_loop avatarVideo brollClips insertionPoints i currentTime segments =
   buildSegments_loop avatarVideo brollClips insertionPoints i currentTime segments"
proof (induction avatarVideo brollClips insertionPoints i currentTime segments
    rule: buildSegments_loop.induct)
  case (1 avatarVideo brollClips insertionPoints i currentTime segments)
  have L: "buildAndExtract_loop avatarVideo brollClips insertionPoints i currentTime segments =
     (if i < length insertionPoints then
        (let insertAt = insertionPoints ! i
         in if i < length brollClips then
              (let broll = brollClips ! i;
                   avatarDuration = insertAt - currentTime;
                   segmentFiles1 =
                     (if avatarDuration > 0
                      then segments @ [avatar_segment avatarVideo currentTime avatarDuration]
                      else segments)
               in buildAndExtract_loop avatarVideo brollClips insertionPoints (i + 1)
                    (insertAt + brollDuration broll) (segmentFiles1 @ [broll_segment broll]))
            else Inl TypeError)
      else Inr (currentTime, segments))"
    by (rule buildAndExtract_loop.simps)
  have R: "buildSegments_loop avatarVideo brollClips insertionPoints i currentTime segments =
     (if i < length insertionPoints then
        (let insertAt = insertionPoints ! i;
             segments1 =
               (if insertAt > currentTime
                then segments @ [avatar_segment avatarVideo currentTime (insertAt - currentTime)]
                else segments)
         in if i < length brollClips then
              (let broll = brollClips ! i
               in buildSegments_loop avatarVideo brollClips insertionPoints (i + 1)
                    (insertAt + brollDuration broll) (segments1 @ [broll_segment broll]))
            else Inl TypeError)
      else Inr (currentTime, segments))"
    by (rule buildSegments_loop.simps)
  show ?case
    unfolding L R using "1.IH" by (auto simp: Let_def)
qed

lemma buildAndExtractVideoSegments_eq:
  "buildAndExtractVideoSegments avatarVideo brollClips insertionPoints totalDuration =
   buildSegments avatarVideo brollClips insertionPoints totalDuration"
  by (simp add: buildAndExtractVideoSegments_def buildSegments_def buildAndExtract_loop_eq Let_def
      split: sum.splits)


text \<open>
  For the proofs the index loop is read as a recursion over the insertion
  points that remain and the clips that remain.
\<close>

fun timeline :: "string \<Rightarrow> real \<Rightarrow> real list \<Rightarrow> clip list \<Rightarrow> error + (real \<times> segment list)" where
  "timeline avatarVideo currentTime [] clips = Inr (currentTime, [])"
| "timeline avatarVideo currentTime (insertAt # points) [] = Inl TypeError"
| "timeline avatarVideo currentTime (insertAt # points) (broll # clips) =
     (case timeline avatarVideo (insertAt + brollDuration broll) points clips of
        Inl e \<Rightarrow> Inl e
      | Inr (endTime, segments) \<Rightarrow>
          Inr (endTime,
               (if insertAt > currentTime
                then [avatar_segment avatarVideo currentTime (insertAt - currentTime)]
                else []) @ broll_segment broll # segments))"

text \<open>The insertion points at which no clip is still running, and the time at
  which the last clip ends.\<close>

fun no_overlap :: "real \<Rightarrow> real list \<Rightarrow> clip list \<Rightarrow> bool" where
  "no_overlap currentTime [] clips = True"
| "no_overlap currentTime (insertAt # points) [] = True"
| "no_overlap currentTime (insertAt # points) (broll # clips) =
     (currentTime \<le> insertAt \<and> no_overlap (insertAt + brollDuration broll) points clips)"

lemma buildSegments_loop_unfold:
  "buildSegments_loop avatarVideo brollClips insertionPoints i currentTime segments =
     (if i < length insertionPoints then
        (if i < length brollClips then
           buildSegments_loop avatarVideo brollClips insertionPoints (Suc i)
             (insertionPoints ! i + brollDuration (brollClips ! i))
             ((if insertionPoints ! i > currentTime
               then segments @ [avatar_segment avatarVideo currentTime (insertionPoints ! i - currentTime)]
               else segments) @ [broll_segment (brollClips ! i)])
         else Inl TypeError)
      else Inr (currentTime, segments))"
  by (subst buildSegments_loop.simps) (simp add: Let_def)

lemma buildSegments_loop_timeline:
  "buildSegments_loop avatarVideo brollClips insertionPoints i currentTime segments =
     (case timeline avatarVideo currentTime (drop i insertionPoints) (drop i brollClips) of
        Inl e \<Rightarrow> Inl e
      | Inr (endTime, segments') \<Rightarrow> Inr (endTime, segments @ segments'))"
proof (induction avatarVideo brollClips insertionPoints i currentTime segments
    rule: buildSegments_loop.induct)
  case (1 avatarVideo brollClips insertionPoints i currentTime segments)
  show ?case
  proof (cases "i < length insertionPoints")
    case False
    then show ?thesis
      by (subst buildSegments_loop_unfold) simp
  next
    case points: True
    then have dp: "drop i insertionPoints = insertionPoints ! i # drop (Suc i) insertionPoints"
      by (simp add: Cons_nth_drop_Suc)
    show ?thesis
    proof (cases "i < length brollClips")
      case False
      with points dp show ?thesis
        by (subst buildSegments_loop_unfold) simp
    next
      case clips: True
      then have dc: "drop i brollClips = brollClips ! i # drop (Suc i) brollClips"
        by (simp add: Cons_nth_drop_Suc)
      let ?segs = "(if insertionPoints ! i > currentTime
               then segments @ [avatar_segment avatarVideo currentTime (insertionPoints ! i - currentTime)]
               else segments) @ [broll_segment (brollClips ! i)]"
      have IH: "buildSegments_loop avatarVideo brollClips insertionPoints (Suc i)
                  (insertionPoints ! i + brollDuration (brollClips ! i)) ?segs =
                (case timeline avatarVideo (insertionPoints ! i + brollDuration (brollClips ! i))
                        (drop (Suc i) insertionPoints) (drop (Suc i) brollClips) of
                   Inl e \<Rightarrow> Inl e
                 | Inr (endTime, segments') \<Rightarrow> Inr (endTime, ?segs @ segments'))"
        using "1.IH" [OF points refl refl clips refl] by simp
      have step: "buildSegments_loop avatarVideo brollClips insertionPoints i currentTime segments =
                  buildSegments_loop avatarVideo brollClips insertionPoints (Suc i)
                    (insertionPoints ! i + brollDuration (brollClips ! i)) ?segs"
        by (subst buildSegments_loop_unfold) (simp add: points clips)
      show ?thesis
        unfolding step IH dp dc by (simp split: sum.splits)
    qed
  qed
qed

lemma buildSegments_timeline:
  "buildSegments avatarVideo brollClips insertionPoints totalDuration =
     (case timeline avatarVideo 0 insertionPoints brollClips of
        Inl e \<Rightarrow> Inl e
      | Inr (endTime, segments) \<Rightarrow>
          Inr (if endTime < totalDuration
               then segments @ [avatar_segment avatarVideo endTime (totalDuration - endTime)]
               else segments))"
  by (simp add: buildSegments_def buildSegments_loop_timeline split: sum.splits)

lemma timeline_succeeds:
  "length insertionPoints \<le> length clips \<longleftrightarrow>
     (\<exists>r. timeline avatarVideo currentTime insertionPoints clips = Inr r)"
proof (induction avatarVideo currentTime insertionPoints clips rule: timeline.induct)
  case (3 avatarVideo currentTime insertAt points broll clips)
  then show ?case
    by (auto split: sum.splits)
qed simp_all


lemma timeline_sum:
  assumes "timeline avatarVideo currentTime insertionPoints clips = Inr (endTime, segments)"
  shows "endTime - currentTime \<le> durations_sum segments
       \<and> (durations_sum segments = endTime - currentTime
            \<longleftrightarrow> no_overlap currentTime insertionPoints clips)"
  using assms
proof (induction avatarVideo currentTime insertionPoints clips arbitrary: endTime segments
    rule: timeline.induct)
  case (1 avatarVideo currentTime clips)
  then show ?case
    by (simp add: durations_sum_def)
next
  case (2 avatarVideo currentTime insertAt points)
  then show ?case
    by simp
next
  case (3 avatarVideo currentTime insertAt points broll clips)
  from "3.prems" obtain segs where
    rest: "timeline avatarVideo (insertAt + brollDuration broll) points clips = Inr (endTime, segs)"
    and segments: "segments =
      (if insertAt > currentTime
       then [avatar_segment avatarVideo currentTime (insertAt - currentTime)]
       else []) @ broll_segment broll # segs"
    by (auto split: sum.splits)
  have sum: "durations_sum segments =
      (if insertAt > currentTime then insertAt - currentTime else 0)
      + brollDuration broll + durations_sum segs"
    unfolding segments
    by (simp add: durations_sum_def avatar_segment_def broll_segment_def)
  from "3.IH" [OF rest] have
    ge: "endTime - (insertAt + brollDuration broll) \<le> durations_sum segs"
    and eq: "durations_sum segs = endTime - (insertAt + brollDuration broll)
        \<longleftrightarrow> no_overlap (insertAt + brollDuration broll) points clips"
    by simp_all
  show ?case
  proof (cases "insertAt > currentTime")
    case True
    with ge eq show ?thesis
      unfolding sum by auto
  next
    case False
    with ge eq show ?thesis
      unfolding sum by auto
  qed
qed


lemma buildSegments_succeeds:
  "length insertionPoints \<le> length brollClips \<longleftrightarrow>
     (\<exists>segments. buildSegments avatarVideo brollClips insertionPoints totalDuration = Inr segments)"
proof -
  have "(\<exists>segments. buildSegments avatarVideo brollClips insertionPoints totalDuration = Inr segments)
      \<longleftrightarrow> (\<exists>r. timeline avatarVideo 0 insertionPoints brollClips = Inr r)"
    by (auto simp: buildSegments_timeline split: sum.splits)
  then show ?thesis
    by (simp only: timeline_succeeds [of insertionPoints brollClips avatarVideo 0])
qed


text \<open>
  The segments never add up to less than the primary duration, and they add
  up to exactly the primary duration precisely when every insertion point lies
  at or after the end of the previous clip and the last clip ends at or before
  the end of the primary video.
\<close>

lemma buildSegments_sum:
  assumes "buildSegments avatarVideo brollClips insertionPoints totalDuration = Inr segments"
    and "timeline avatarVideo 0 insertionPoints brollClips = Inr (endTime, segs)"
  shows "totalDuration \<le> durations_sum segments
       \<and> (durations_sum segments = totalDuration
            \<longleftrightarrow> no_overlap 0 insertionPoints brollClips \<and> endTime \<le> totalDuration)"
proof -
  from assms have segments: "segments =
      (if endTime < totalDuration
       then segs @ [avatar_segment avatarVideo endTime (totalDuration - endTime)]
       else segs)"
    by (simp add: buildSegments_timeline)
  have sum: "durations_sum segments =
      durations_sum segs + (if endTime < totalDuration then totalDuration - endTime else 0)"
    unfolding segments by (simp add: durations_sum_def avatar_segment_def)
  from timeline_sum [OF assms(2)] have
    ge: "endTime \<le> durations_sum segs"
    and eq: "durations_sum segs = endTime \<longleftrightarrow> no_overlap 0 insertionPoints brollClips"
    by simp_all
  show ?thesis
  proof (cases "endTime < totalDuration")
    case True
    with ge eq show ?thesis
      unfolding sum by auto
  next
    case False
    with ge eq show ?thesis
      unfolding sum by auto
  qed
qed

text \<open>
  Claim C1. The claim is that the segment durations add up to
  \<open>totalDuration\<close> for every scheduler output with one clip per insertion
  point. The code does not do so: for a 20 second primary video with three
  clips of 5 seconds each, the scheduler gives the points 6.5, 10 and 13.5,
  each clip is used for 4 seconds, the second and third insertion points fall
  inside the clip before them, and the five segments add up to 21 seconds.
  Both composers (\<open>buildSegments\<close> and \<open>buildAndExtractVideoSegments\<close>)
  return this plan.
\<close>

theorem composer_overrun:
  "calculateInsertionPoints 20 3 = [13 / 2, 10, 27 / 2]
   \<and> buildSegments ''/tmp/input.mp4''
       [\<lparr>clip_localPath = ''/tmp/broll_0.mp4'', clip_duration = 5, clip_key = ''a.mp4''\<rparr>,
        \<lparr>clip_localPath = ''/tmp/broll_1.mp4'', clip_duration = 5, clip_key = ''b.mp4''\<rparr>,
        \<lparr>clip_localPath = ''/tmp/broll_2.mp4'', clip_duration = 5, clip_key = ''c.mp4''\<rparr>]
       (calculateInsertionPoints 20 3) 20 =
     Inr [\<lparr>seg_type = Avatar, seg_input = ''/tmp/input.mp4'', seg_start = 0, seg_duration = 13 / 2\<rparr>,
          \<lparr>seg_type = Broll, seg_input = ''/tmp/broll_0.mp4'', seg_start = 0, seg_duration = 4\<rparr>,
          \<lparr>seg_type = Broll, seg_input = ''/tmp/broll_1.mp4'', seg_start = 0, seg_duration = 4\<rparr>,
          \<lparr>seg_type = Broll, seg_input = ''/tmp/broll_2.mp4'', seg_start = 0, seg_duration = 4\<rparr>,
          \<lparr>seg_type = Avatar, seg_input = ''/tmp/input.mp4'', seg_start = 35 / 2, seg_duration = 5 / 2\<rparr>]
   \<and> buildAndExtractVideoSegments ''/tmp/input.mp4''
       [\<lparr>clip_localPath = ''/tmp/broll_0.mp4'', clip_duration = 5, clip_key = ''a.mp4''\<rparr>,
        \<lparr>clip_localPath = ''/tmp/broll_1.mp4'', clip_duration = 5, clip_key = ''b.mp4''\<rparr>,
        \<lparr>clip_localPath = ''/tmp/broll_2.mp4'', clip_duration = 5, clip_key = ''c.mp4''\<rparr>]
       (calculateInsertionPoints 20 3) 20 =
     Inr [\<lparr>seg_type = Avatar, seg_input = ''/tmp/input.mp4'', seg_start = 0, seg_duration = 13 / 2\<rparr>,
          \<lparr>seg_type = Broll, seg_input = ''/tmp/broll_0.mp4'', seg_start = 0, seg_duration = 4\<rparr>,
          \<lparr>seg_type = Broll, seg_input = ''/tmp/broll_1.mp4'', seg_start = 0, seg_duration = 4\<rparr>,
          \<lparr>seg_type = Broll, seg_input = ''/tmp/broll_2.mp4'', seg_start = 0, seg_duration = 4\<rparr>,
          \<lparr>seg_type = Avatar, seg_input = ''/tmp/input.mp4'', seg_start = 35 / 2, seg_duration = 5 / 2\<rparr>]
   \<and> durations_sum
       [\<lparr>seg_type = Avatar, seg_input = ''/tmp/input.mp4'', seg_start = 0, seg_duration = 13 / 2\<rparr>,
        \<lparr>seg_type = Broll, seg_input = ''/tmp/broll_0.mp4'', seg_start = 0, seg_duration = 4\<rparr>,
        \<lparr>seg_type = Broll, seg_input = ''/tmp/broll_1.mp4'', seg_start = 0, seg_duration = 4\<rparr>,
        \<lparr>seg_type = Broll, seg_input = ''/tmp/broll_2.mp4'', seg_start = 0, seg_duration = 4\<rparr>,
        \<lparr>seg_type = Avatar, seg_input = ''/tmp/input.mp4'', seg_start = 35 / 2, seg_duration = 5 / 2\<rparr>]
     = 21"
proof -
  have points: "calculateInsertionPoints 20 3 = [13 / 2, 10, 27 / 2]"
    by (simp add: calculateInsertionPoints_def Let_def points_loop.simps startBuffer_def endBuffer_def)
  show ?thesis
    unfolding points
    by (simp add: buildSegments_def buildSegments_loop.simps
        buildAndExtractVideoSegments_def buildAndExtract_loop.simps Let_def
        brollDuration_def maxBrollDuration_def avatar_segment_def broll_segment_def
        durations_sum_def)
qed


section \<open>Overlay variant\<close>



section \<open>Used duration of a cutaway\<close>





section \<open>Clip selection\<close>

text \<open>
  \<open>getRandomBrollClips(count, tmpDir)\<close>. The bucket listing is an argument:
  \<open>None\<close> when the response has no \<open>Contents\<close>, otherwise the listed
  objects. The random comparator makes \<open>sort\<close> return the video files in
  some order; that order is the argument \<open>shuffle\<close>. The duration that
  \<open>ffprobe\<close> reports for a downloaded object is the argument \<open>probe\<close>, by
  object key. Downloads and \<open>ffprobe\<close> are taken to succeed.
\<close>

record s3object =
  obj_Key :: string

definition isVideoFile :: "s3object \<Rightarrow> bool" where
  "isVideoFile obj = (endsWith (obj_Key obj) ''.mp4'' \<or> endsWith (obj_Key obj) ''.mov'')"

definition download_clip :: "(string \<Rightarrow> real) \<Rightarrow> string \<Rightarrow> s3object list \<Rightarrow> nat \<Rightarrow> clip" where
  "download_clip probe tmpDir selected i =
     (let s3Object = selected ! i;
          localPath = path_join tmpDir (''broll_'' @ js_String i @ ''.mp4'');
          duration = probe (obj_Key s3Object)
      in \<lparr>clip_localPath = localPath, clip_duration = duration, clip_key = obj_Key s3Object\<rparr>)"

definition getRandomBrollClips ::
  "(s3object list \<Rightarrow> s3object list) \<Rightarrow> (string \<Rightarrow> real) \<Rightarrow> s3object list option \<Rightarrow>
   nat \<Rightarrow> string \<Rightarrow> error + clip list"
where
  "getRandomBrollClips shuffle probe listing count tmpDir =
     (case listing of
        None \<Rightarrow> Inl NoBrollClipsFound
      | Some contents \<Rightarrow>
          if length contents = 0 then Inl NoBrollClipsFound
          else
            (let videoFiles = filter isVideoFile contents;
                 shuffled = shuffle videoFiles;
                 selected = take (min count (length videoFiles)) shuffled
             in Inr (map (download_clip probe tmpDir selected) [0..<length selected])))"

section \<open>The B-roll step of the handler\<close>

text \<open>
  Step 5 of the handler in the replace variant: for a positive \<open>brollCount\<close>
  it selects the clips, schedules the insertion points and composes the
  segments, with nothing between the scheduler and the composer. An exception
  of any step leaves the \<open>try\<close> block and becomes the 500 response; the
  model returns it. The result is \<open>None\<close> when the input video is used as it
  is.
\<close>

definition tmpDir :: string where
  "tmpDir = ''/tmp''"

definition handler_broll ::
  "(s3object list \<Rightarrow> s3object list) \<Rightarrow> (string \<Rightarrow> real) \<Rightarrow> s3object list option \<Rightarrow>
   string \<Rightarrow> real \<Rightarrow> nat \<Rightarrow> error + segment list option"
where
  "handler_broll shuffle probe listing inputVideo videoDuration brollCount =
     (if brollCount > 0 then
        (case getRandomBrollClips shuffle probe listing brollCount tmpDir of
           Inl e \<Rightarrow> Inl e
         | Inr brollClips \<Rightarrow>
             (let insertionPoints = calculateInsertionPoints videoDuration brollCount
              in case buildAndExtractVideoSegments inputVideo brollClips insertionPoints videoDuration of
                   Inl e \<Rightarrow> Inl e
                 | Inr videoSegments \<Rightarrow> Inr (Some videoSegments)))
      else Inr None)"

section \<open>Properties of the clip selection\<close>

text \<open>Of the shuffle the proofs use only that it keeps the number of elements.\<close>

lemma getRandomBrollClips_length:
  assumes "\<forall>xs. length (shuffle xs) = length xs" and "contents \<noteq> []"
  shows "\<exists>clips. getRandomBrollClips shuffle probe (Some contents) count dir = Inr clips
           \<and> length clips = min count (length (filter isVideoFile contents))"
  using assms by (simp add: getRandomBrollClips_def Let_def)


text \<open>
  Claim C10, as stated, promises \<open>min(count, number of video objects)\<close> clips
  for every listing. For the empty listing that number is 0, but the code
  throws instead of returning no clips.
\<close>

theorem clip_selection_empty_listing:
  "map_sum id length (getRandomBrollClips (\<lambda>xs. xs) (\<lambda>k. 5) (Some []) 1 ''/tmp'')
     \<noteq> Inr (min 1 (length (filter isVideoFile [])))
   \<and> getRandomBrollClips (\<lambda>xs. xs) (\<lambda>k. 5) (Some []) 1 ''/tmp'' = Inl NoBrollClipsFound"
  by (simp add: getRandomBrollClips_def)

text \<open>
  Claim C10, amended. For every listing that is not empty the clip selector
  returns exactly \<open>min(count, number of listed objects whose key ends in .mp4
  or .mov)\<close> clips, which is fewer than \<open>count\<close> when the library holds fewer
  video files (none at all when it holds no video file); for an empty or
  missing listing it throws.
\<close>

theorem clip_selection_count:
  assumes "\<forall>xs. length (shuffle xs) = length xs" and "contents \<noteq> []"
  shows "map_sum id length (getRandomBrollClips shuffle probe (Some contents) count dir) =
           Inr (min count (length (filter isVideoFile contents)))
       \<and> getRandomBrollClips shuffle probe (Some []) count dir = Inl NoBrollClipsFound
       \<and> getRandomBrollClips shuffle probe None count dir = Inl NoBrollClipsFound"
proof -
  from getRandomBrollClips_length [OF assms] obtain clips where
    "getRandomBrollClips shuffle probe (Some contents) count dir = Inr clips"
    and "length clips = min count (length (filter isVideoFile contents))"
    by blast
  then have "map_sum id length (getRandomBrollClips shuffle probe (Some contents) count dir) =
      Inr (min count (length (filter isVideoFile contents)))"
    by simp
  moreover have "getRandomBrollClips shuffle probe (Some []) count dir = Inl NoBrollClipsFound"
    by (simp add: getRandomBrollClips_def)
  moreover have "getRandomBrollClips shuffle probe None count dir = Inl NoBrollClipsFound"
    by (simp add: getRandomBrollClips_def)
  ultimately show ?thesis
    by (intro conjI)
qed

theorem clip_selection_count_witness:
  "[\<lparr>obj_Key = ''intro.mp4''\<rparr>, \<lparr>obj_Key = ''notes.txt''\<rparr>, \<lparr>obj_Key = ''city.mov''\<rparr>] \<noteq> []
   \<and> filter isVideoFile [\<lparr>obj_Key = ''intro.mp4''\<rparr>, \<lparr>obj_Key = ''notes.txt''\<rparr>, \<lparr>obj_Key = ''city.mov''\<rparr>]
       = [\<lparr>obj_Key = ''intro.mp4''\<rparr>, \<lparr>obj_Key = ''city.mov''\<rparr>]
   \<and> map_sum id length
       (getRandomBrollClips rev (\<lambda>k. 5)
          (Some [\<lparr>obj_Key = ''intro.mp4''\<rparr>, \<lparr>obj_Key = ''notes.txt''\<rparr>, \<lparr>obj_Key = ''city.mov''\<rparr>])
          3 ''/tmp'') = Inr 2"
proof -
  let ?contents = "[\<lparr>obj_Key = ''intro.mp4''\<rparr>, \<lparr>obj_Key = ''notes.txt''\<rparr>, \<lparr>obj_Key = ''city.mov''\<rparr>]"
  have shuffle: "\<forall>xs :: s3object list. length (rev xs) = length xs"
    by simp
  have nonempty: "?contents \<noteq> []"
    by simp
  have videos: "filter isVideoFile ?contents = [\<lparr>obj_Key = ''intro.mp4''\<rparr>, \<lparr>obj_Key = ''city.mov''\<rparr>]"
    by (simp add: isVideoFile_def endsWith_def)
  from clip_selection_count [OF shuffle nonempty, of "\<lambda>k. 5" 3 "''/tmp''"]
  have "map_sum id length (getRandomBrollClips rev (\<lambda>k. 5) (Some ?contents) 3 ''/tmp'') =
      Inr (min 3 (length (filter isVideoFile ?contents)))"
    by (rule conjunct1)
  then have "map_sum id length (getRandomBrollClips rev (\<lambda>k. 5) (Some ?contents) 3 ''/tmp'') = Inr 2"
    unfolding videos by simp
  with nonempty videos show ?thesis
    by (intro conjI)
qed

section \<open>A source shorter than the two buffers\<close>

text \<open>
  Claim C3. The scheduler is to fail with an \<open>InvalidDurationError\<close> when
  the usable window is empty, and the composer is not to run. The code does
  neither: it has no such error and no check of the window. For a 4 second
  source and one clip the scheduler returns the point 2, inside the first
  3 seconds it is written to avoid, and the handler composes from it a plan
  of 6 seconds; for a 3 second source and two clips the points are 2 and 1,
  in decreasing order.
\<close>

theorem scheduler_short_source_returns:
  "4 - startBuffer - endBuffer \<le> 0
   \<and> calculateInsertionPoints 4 1 = [2]
   \<and> handler_broll (\<lambda>xs. xs) (\<lambda>k. 5) (Some [\<lparr>obj_Key = ''city.mp4''\<rparr>]) ''/tmp/input.mp4'' 4 1 =
       Inr (Some
         [\<lparr>seg_type = Avatar, seg_input = ''/tmp/input.mp4'', seg_start = 0, seg_duration = 2\<rparr>,
          \<lparr>seg_type = Broll, seg_input = ''/tmp/broll_0.mp4'', seg_start = 0, seg_duration = 4\<rparr>])
   \<and> durations_sum
         [\<lparr>seg_type = Avatar, seg_input = ''/tmp/input.mp4'', seg_start = 0, seg_duration = 2\<rparr>,
          \<lparr>seg_type = Broll, seg_input = ''/tmp/broll_0.mp4'', seg_start = 0, seg_duration = 4\<rparr>] = 6
   \<and> 3 - startBuffer - endBuffer \<le> 0
   \<and> calculateInsertionPoints 3 2 = [2, 1]"
proof -
  have points: "calculateInsertionPoints 4 1 = [2]"
    by (simp add: calculateInsertionPoints_def Let_def points_loop.simps startBuffer_def endBuffer_def)
  have points': "calculateInsertionPoints 3 2 = [2, 1]"
    by (simp add: calculateInsertionPoints_def Let_def points_loop.simps startBuffer_def endBuffer_def)
  have clips: "getRandomBrollClips (\<lambda>xs. xs) (\<lambda>k. 5) (Some [\<lparr>obj_Key = ''city.mp4''\<rparr>]) 1 tmpDir =
      Inr [\<lparr>clip_localPath = ''/tmp/broll_0.mp4'', clip_duration = 5, clip_key = ''city.mp4''\<rparr>]"
    by (simp add: getRandomBrollClips_def Let_def isVideoFile_def endsWith_def download_clip_def
        path_join_def tmpDir_def js_String.simps digit_char_def)
  have "handler_broll (\<lambda>xs. xs) (\<lambda>k. 5) (Some [\<lparr>obj_Key = ''city.mp4''\<rparr>]) ''/tmp/input.mp4'' 4 1 =
       Inr (Some
         [\<lparr>seg_type = Avatar, seg_input = ''/tmp/input.mp4'', seg_start = 0, seg_duration = 2\<rparr>,
          \<lparr>seg_type = Broll, seg_input = ''/tmp/broll_0.mp4'', seg_start = 0, seg_duration = 4\<rparr>])"
    unfolding handler_broll_def clips points
    by (simp add: buildAndExtractVideoSegments_def buildAndExtract_loop.simps Let_def
        brollDuration_def maxBrollDuration_def avatar_segment_def broll_segment_def)
  with points points' show ?thesis
    by (simp add: startBuffer_def endBuffer_def durations_sum_def)
qed

section \<open>Caption cue builder\<close>

text \<open>
  \<open>formatTimestamp(seconds)\<close>, identical in every variant. The four local
  constants are integers; \<open>String\<close> of a negative one starts with a minus
  sign. The quotients \<open>seconds / 3600\<close> and \<open>(seconds % 3600) / 60\<close> and the
  product \<open>(seconds % 1) * 1000\<close> are doubles, rounded before \<open>Math.floor\<close>
  is taken.
\<close>

definition js_String_int :: "int \<Rightarrow> string" where
  "js_String_int k = (if k < 0 then ''-'' @ js_String (nat (- k)) else js_String (nat k))"

definition ts_hours :: "real \<Rightarrow> int" where
  "ts_hours seconds = \<lfloor>fl (seconds / 3600)\<rfloor>"

definition ts_minutes :: "real \<Rightarrow> int" where
  "ts_minutes seconds = \<lfloor>fl (js_rem seconds 3600 / 60)\<rfloor>"

definition ts_secs :: "real \<Rightarrow> int" where
  "ts_secs seconds = \<lfloor>js_rem seconds 60\<rfloor>"

definition ts_millis :: "real \<Rightarrow> int" where
  "ts_millis seconds = \<lfloor>fl (js_rem seconds 1 * 1000)\<rfloor>"

definition formatTimestamp :: "real \<Rightarrow> string" where
  "formatTimestamp seconds =
     padStart 2 CHR ''0'' (js_String_int (ts_hours seconds)) @ '':'' @
     padStart 2 CHR ''0'' (js_String_int (ts_minutes seconds)) @ '':'' @
     padStart 2 CHR ''0'' (js_String_int (ts_secs seconds)) @ '','' @
     padStart 3 CHR ''0'' (js_String_int (ts_millis seconds))"

text \<open>
  A word of the transcript (\<open>{ word, start, end }\<close>) and the four values an
  iteration of \<open>createSRTFile\<close> computes for its chunk: the running index,
  the two formatted time codes and the text. The iteration pushes the entry
  that the template string builds from them; the file is the entries joined
  by a newline.
\<close>

record word =
  w_word :: string
  w_start :: real
  w_end :: real

record cue =
  cue_index :: nat
  cue_start :: string
  cue_end :: string
  cue_text :: string

definition slice :: "nat \<Rightarrow> nat \<Rightarrow> 'a list \<Rightarrow> 'a list" where
  "slice b e xs = take (e - b) (drop b xs)"

definition chunk_cue :: "nat \<Rightarrow> word list \<Rightarrow> cue" where
  "chunk_cue index chunk =
     (let text = join '' '' (map w_word chunk);
          start = formatTimestamp (w_start (chunk ! 0));
          end = formatTimestamp (w_end (chunk ! (length chunk - 1)))
      in \<lparr>cue_index = index, cue_start = start, cue_end = end, cue_text = text\<rparr>)"

definition srtEntry :: "cue \<Rightarrow> string" where
  "srtEntry c =
     js_String (cue_index c) @ ''\<newline>'' @ cue_start c @ '' --> '' @ cue_end c @ ''\<newline>'' @
     cue_text c @ ''\<newline>''"

function cues_loop :: "word list \<Rightarrow> nat \<Rightarrow> nat \<Rightarrow> cue list \<Rightarrow> cue list" where
  "cues_loop words i index cues =
     (if i < length words
      then (let chunk = slice i (i + 3) words
            in cues_loop words (i + 3) (index + 1) (cues @ [chunk_cue index chunk]))
      else cues)"
  by pat_completeness auto
termination
  by (relation "measure (\<lambda>(words, i, index, cues). length words - i)") auto

declare cues_loop.simps [simp del]

definition srtCues :: "word list \<Rightarrow> cue list" where
  "srtCues words = cues_loop words 0 1 []"

definition createSRTFile :: "word list \<Rightarrow> string" where
  "createSRTFile words = join ''\<newline>'' (map srtEntry (srtCues words))"

text \<open>
  The older variants (the Express server and the first Lambda handler) append
  each entry followed by an empty line to one string instead.
\<close>

definition createSRTFile_legacy :: "word list \<Rightarrow> string" where
  "createSRTFile_legacy words = concat (map (\<lambda>c. srtEntry c @ ''\<newline>'') (srtCues words))"


section \<open>Properties of rounding\<close>

lemma log2_nat_bounds:
  "0 < n \<Longrightarrow> 2 ^ log2_nat n \<le> n \<and> n < 2 ^ Suc (log2_nat n)"
proof (induction n rule: log2_nat.induct)
  case (1 n)
  show ?case
  proof (cases "n < 2")
    case True
    with "1.prems" have "n = 1"
      by simp
    then show ?thesis
      by (simp add: log2_nat.simps)
  next
    case False
    then have "0 < n div 2"
      by simp
    with "1.IH" False have "2 ^ log2_nat (n div 2) \<le> n div 2"
      and "n div 2 < 2 ^ Suc (log2_nat (n div 2))"
      by simp_all
    moreover from False have "log2_nat n = Suc (log2_nat (n div 2))"
      by (subst log2_nat.simps) simp
    ultimately show ?thesis
      by simp linarith
  qed
qed

lemma binade_bounds:
  assumes "0 < x"
  shows "2 powi binade x \<le> x" and "x < 2 powi (binade x + 1)"
proof -
  have "2 powi binade x \<le> x \<and> x < 2 powi (binade x + 1)"
  proof (cases "1 \<le> x")
    case True
    define n where "n = nat \<lfloor>x\<rfloor>"
    from True have n: "0 < n" "real n \<le> x" "x < real n + 1"
      unfolding n_def by (simp_all add: le_nat_floor)
    from log2_nat_bounds [OF n(1)] have "2 ^ log2_nat n \<le> n" and "n + 1 \<le> 2 ^ Suc (log2_nat n)"
      by simp_all
    then have "(2::real) ^ log2_nat n \<le> real n" and "real n + 1 \<le> 2 ^ Suc (log2_nat n)"
      by (metis of_nat_le_iff of_nat_numeral of_nat_power, metis of_nat_le_iff of_nat_numeral of_nat_power of_nat_Suc Suc_eq_plus1 of_nat_add of_nat_1)
    with n have "(2::real) ^ log2_nat n \<le> x" and "x < 2 ^ Suc (log2_nat n)"
      by linarith+
    moreover from True have "binade x = int (log2_nat n)"
      by (simp add: binade_def n_def)
    ultimately show ?thesis
      by (simp add: power_int_add)
  next
    case False
    define m where "m = nat \<lceil>1 / x\<rceil> - 1"
    from False assms have y: "1 < 1 / x"
      by simp
    then have c: "2 \<le> \<lceil>1 / x\<rceil>"
      by linarith
    then have m: "0 < m" "real m < 1 / x" "1 / x \<le> real m + 1"
      unfolding m_def by linarith+
    from log2_nat_bounds [OF m(1)] have "2 ^ log2_nat m \<le> m" and "m + 1 \<le> 2 ^ Suc (log2_nat m)"
      by simp_all
    then have "(2::real) ^ log2_nat m \<le> real m" and "real m + 1 \<le> 2 ^ Suc (log2_nat m)"
      by (metis of_nat_le_iff of_nat_numeral of_nat_power, metis of_nat_le_iff of_nat_numeral of_nat_power of_nat_Suc Suc_eq_plus1 of_nat_add of_nat_1)
    with m have lo: "(2::real) ^ log2_nat m < 1 / x" and hi: "1 / x \<le> 2 ^ Suc (log2_nat m)"
      by linarith+
    from hi assms have "1 / 2 ^ Suc (log2_nat m) \<le> x"
      by (simp add: field_simps)
    moreover from lo assms have "x < 1 / 2 ^ log2_nat m"
      by (simp add: field_simps)
    moreover from False have b: "binade x = - int (Suc (log2_nat m))"
      by (simp add: binade_def m_def)
    then have b1: "binade x + 1 = - int (log2_nat m)"
      by simp
    have "(2::real) powi binade x = 1 / 2 ^ Suc (log2_nat m)"
      unfolding b by (simp only: power_int_minus_divide power_int_of_nat)
    moreover have "(2::real) powi (binade x + 1) = 1 / 2 ^ log2_nat m"
      unfolding b1 by (simp only: power_int_minus_divide power_int_of_nat)
    ultimately show ?thesis
      by (simp only:) 
  qed
  then show "2 powi binade x \<le> x" and "x < 2 powi (binade x + 1)"
    by simp_all
qed


lemma powi_less_imp:
  assumes "(2::real) powi a < 2 powi b"
  shows "a < b"
proof (rule ccontr)
  assume "\<not> a < b"
  then have "b \<le> a"
    by simp
  then have "(2::real) powi b \<le> 2 powi a"
    by (rule power_int_increasing) simp
  with assms show False
    by simp
qed

lemma binade_eqI:
  assumes "2 powi k \<le> x" and "x < 2 powi (k + 1)"
  shows "binade x = k"
proof -
  have "(0::real) < 2 powi k"
    by simp
  with assms(1) have pos: "0 < x"
    by linarith
  from binade_bounds(1) [OF pos] assms(2) have "(2::real) powi binade x < 2 powi (k + 1)"
    by linarith
  then have "binade x < k + 1"
    by (rule powi_less_imp)
  moreover from binade_bounds(2) [OF pos] assms(1) have "(2::real) powi k < 2 powi (binade x + 1)"
    by linarith
  then have "k < binade x + 1"
    by (rule powi_less_imp)
  ultimately show ?thesis
    by simp
qed

lemma round_even_cases:
  "round_even y = \<lfloor>y\<rfloor> \<and> y - of_int \<lfloor>y\<rfloor> \<le> 1 / 2
   \<or> round_even y = \<lfloor>y\<rfloor> + 1 \<and> 1 / 2 \<le> y - of_int \<lfloor>y\<rfloor>"
  by (auto simp: round_even_def Let_def)

lemma round_even_nearest:
  "\<bar>of_int (round_even y) - y\<bar> \<le> \<bar>of_int k - y\<bar>"
proof -
  have fl: "of_int \<lfloor>y\<rfloor> \<le> y" "y < of_int \<lfloor>y\<rfloor> + 1"
    by linarith+
  consider "k \<le> \<lfloor>y\<rfloor>" | "\<lfloor>y\<rfloor> + 1 \<le> k"
    by linarith
  then show ?thesis
  proof cases
    case 1
    then have "(of_int k :: real) \<le> of_int \<lfloor>y\<rfloor>"
      by simp
    with fl round_even_cases [of y] show ?thesis
      by auto
  next
    case 2
    then have "(of_int \<lfloor>y\<rfloor> :: real) + 1 \<le> of_int k"
      by (metis of_int_1 of_int_add of_int_le_iff)
    with fl round_even_cases [of y] show ?thesis
      by auto
  qed
qed

lemma ulp_pos: "0 < ulp x"
  by (simp add: ulp_def)

lemma fl_nearest:
  "\<bar>fl x - x\<bar> \<le> \<bar>ulp x * of_int k - x\<bar>"
proof (cases "x = 0")
  case True
  then show ?thesis
    by (simp add: fl_def)
next
  case False
  define u where "u = ulp x"
  have u: "0 < u"
    unfolding u_def by (rule ulp_pos)
  have "\<bar>of_int (round_even (x / u)) - x / u\<bar> \<le> \<bar>of_int k - x / u\<bar>"
    by (rule round_even_nearest)
  with u have "u * \<bar>of_int (round_even (x / u)) - x / u\<bar> \<le> u * \<bar>of_int k - x / u\<bar>"
    by (simp only: mult_le_cancel_left_pos)
  moreover have "u * \<bar>of_int j - x / u\<bar> = \<bar>u * of_int j - x\<bar>" for j :: int
  proof -
    have "u * \<bar>of_int j - x / u\<bar> = \<bar>u * (of_int j - x / u)\<bar>"
      using u by (simp add: abs_mult)
    also have "u * (of_int j - x / u) = u * of_int j - x"
      using u by (simp add: algebra_simps)
    finally show ?thesis .
  qed
  ultimately have "\<bar>u * of_int (round_even (x / u)) - x\<bar> \<le> \<bar>u * of_int k - x\<bar>"
    by simp
  with False show ?thesis
    by (simp add: fl_def u_def)
qed

lemma ulp_integer:
  assumes "0 < x" and "x < 2 ^ 53"
  shows "\<exists>k. of_int n = ulp x * of_int k"
proof -
  define e where "e = max (binade \<bar>x\<bar>) (- 1022)"
  from assms have "(2::real) powi binade x < 2 powi 53"
    using binade_bounds(1) [OF assms(1)] by simp
  then have "binade x < 53"
    by (rule powi_less_imp)
  with assms(1) have e: "e \<le> 52"
    by (simp add: e_def)
  define N where "N = (2::int) ^ nat (52 - e)"
  have "ulp x * of_int N = 2 powi (e - 52) * 2 powi (52 - e)"
    using e by (simp add: ulp_def e_def N_def power_int_def)
  also have "\<dots> = 1"
    by (simp flip: power_int_add)
  finally have "ulp x * of_int (N * n) = of_int n"
    by (simp add: algebra_simps)
  then show ?thesis
    by metis
qed

lemma fl_between:
  assumes "0 \<le> x" and "x < 2 ^ 53"
  shows "of_int \<lfloor>x\<rfloor> \<le> fl x" and "fl x \<le> of_int \<lfloor>x\<rfloor> + 1"
proof -
  have "of_int \<lfloor>x\<rfloor> \<le> fl x \<and> fl x \<le> of_int \<lfloor>x\<rfloor> + 1"
  proof (cases "x = 0")
    case True
    then show ?thesis
      by (simp add: fl_def)
  next
    case False
    with assms have pos: "0 < x"
      by simp
    have fl: "of_int \<lfloor>x\<rfloor> \<le> x" "x < of_int \<lfloor>x\<rfloor> + 1"
      by linarith+
    from ulp_integer [OF pos assms(2), of "\<lfloor>x\<rfloor>"] obtain k where
      "of_int \<lfloor>x\<rfloor> = ulp x * of_int k"
      by blast
    with fl_nearest [of x k] have lo: "\<bar>fl x - x\<bar> \<le> \<bar>of_int \<lfloor>x\<rfloor> - x\<bar>"
      by simp
    from ulp_integer [OF pos assms(2), of "\<lfloor>x\<rfloor> + 1"] obtain j where
      "of_int (\<lfloor>x\<rfloor> + 1) = ulp x * of_int j"
      by blast
    with fl_nearest [of x j] have hi: "\<bar>fl x - x\<bar> \<le> \<bar>of_int \<lfloor>x\<rfloor> + 1 - x\<bar>"
      by simp
    from lo hi fl show ?thesis
      by linarith
  qed
  then show "of_int \<lfloor>x\<rfloor> \<le> fl x" and "fl x \<le> of_int \<lfloor>x\<rfloor> + 1"
    by simp_all
qed

lemma fl_floor:
  assumes "0 \<le> x" and "x < 2 ^ 53"
  shows "\<lfloor>fl x\<rfloor> = \<lfloor>x\<rfloor> \<or> \<lfloor>fl x\<rfloor> = \<lfloor>x\<rfloor> + 1"
proof -
  from fl_between [OF assms] have "\<lfloor>x\<rfloor> \<le> \<lfloor>fl x\<rfloor>" and "\<lfloor>fl x\<rfloor> \<le> \<lfloor>x\<rfloor> + 1"
    by (simp_all add: le_floor_iff floor_le_iff)
  then show ?thesis
    by linarith
qed

lemma fl_below_1000:
  assumes "0 \<le> p" and "p \<le> 1000 - 1000 / 2 ^ 53"
  shows "fl p < 1000"
proof (cases "p < 999")
  case True
  then have "\<lfloor>p\<rfloor> \<le> 998"
    by linarith
  then have "(of_int \<lfloor>p\<rfloor> :: real) \<le> 998"
    by linarith
  moreover from assms have "p < 2 ^ 53"
    by simp
  with assms(1) have "fl p \<le> of_int \<lfloor>p\<rfloor> + 1"
    by (rule fl_between)
  ultimately show ?thesis
    by linarith
next
  case False
  from False assms have "2 powi 9 \<le> p" and "p < 2 powi (9 + 1)"
    by simp_all
  then have "binade p = 9"
    by (rule binade_eqI)
  with False have u: "ulp p = 1 / 2 ^ 43"
    by (simp add: ulp_def power_int_minus_divide)
  have "ulp p * of_int (1000 * 2 ^ 43 - 1) = 1000 - 1 / 2 ^ 43"
    unfolding u by simp
  with fl_nearest [of p "1000 * 2 ^ 43 - 1"] have "\<bar>fl p - p\<bar> \<le> \<bar>1000 - 1 / 2 ^ 43 - p\<bar>"
    by simp
  with assms(2) show ?thesis
    by simp
qed

lemma double_frac:
  assumes "0 \<le> s" and "fl s = s"
  shows "s - of_int \<lfloor>s\<rfloor> \<le> 1 - 1 / 2 ^ 53"
proof (cases "s < 1 / 2")
  case True
  with assms(1) have "\<lfloor>s\<rfloor> = 0"
    by linarith
  with True show ?thesis
    by simp
next
  case False
  then have pos: "0 < s" and nz: "s \<noteq> 0"
    by simp_all
  define b where "b = binade s"
  from binade_bounds(2) [OF pos] False have "(2::real) powi (- 1) < 2 powi (b + 1)"
    by (simp add: b_def)
  then have "- 1 < b + 1"
    by (rule powi_less_imp)
  then have b: "- 1 \<le> b"
    by simp
  with pos have u: "ulp s = 2 powi (b - 52)"
    by (simp add: ulp_def b_def)
  define k where "k = round_even (s / ulp s)"
  from assms(2) nz have s: "s = ulp s * of_int k"
    by (simp add: fl_def k_def)
  show ?thesis
  proof (cases "52 \<le> b")
    case True
    then have "ulp s = of_int (2 ^ nat (b - 52))"
      unfolding u by (simp add: power_int_def)
    then have "s = of_int (2 ^ nat (b - 52) * k)"
      using s by simp
    then have "of_int \<lfloor>s\<rfloor> = s"
      by (metis floor_of_int)
    then have "s - of_int \<lfloor>s\<rfloor> = 0"
      by linarith
    then show ?thesis
      by (simp only:) simp
  next
    case False
    define N where "N = (2::int) ^ nat (52 - b)"
    have uN: "ulp s * of_int N = 1"
    proof -
      have "ulp s * of_int N = 2 powi (b - 52) * 2 powi (52 - b)"
        using False by (simp add: u N_def power_int_def)
      also have "\<dots> = 1"
        by (simp flip: power_int_add)
      finally show ?thesis .
    qed
    have Npos: "0 < (of_int N :: real)"
      by (simp add: N_def)
    from uN Npos have u_eq: "ulp s = 1 / of_int N"
      by (simp add: field_simps)
    define j where "j = k - N * \<lfloor>s\<rfloor>"
    have frac: "s - of_int \<lfloor>s\<rfloor> = of_int j / of_int N"
      using Npos by (subst (1) s) (simp add: u_eq j_def field_simps)
    have "s - of_int \<lfloor>s\<rfloor> < 1"
      by linarith
    then have "of_int j / (of_int N :: real) < 1"
      unfolding frac .
    with Npos have "(of_int j :: real) < of_int N"
      by (simp only: pos_divide_less_eq mult_1)
    then have "j \<le> N - 1"
      by simp
    then have "(of_int j :: real) \<le> of_int N - 1"
      by (metis of_int_1 of_int_diff of_int_le_iff)
    with Npos have "of_int j / (of_int N :: real) \<le> 1 - 1 / of_int N"
      by (simp add: field_simps)
    moreover from b have "(2::real) powi (- 53) \<le> 2 powi (b - 52)"
      by (intro power_int_increasing) simp_all
    then have "1 / 2 ^ 53 \<le> ulp s"
      unfolding u by (simp add: power_int_minus_divide)
    ultimately show ?thesis
      unfolding frac u_eq [symmetric] by linarith
  qed
qed

lemma fl_nonneg:
  assumes "0 \<le> x"
  shows "0 \<le> fl x"
proof (cases "x = 0")
  case True
  then show ?thesis
    by (simp add: fl_def)
next
  case False
  from assms ulp_pos [of x] have "0 \<le> x / ulp x"
    by simp
  then have "0 \<le> \<lfloor>x / ulp x\<rfloor>"
    by simp
  with round_even_cases [of "x / ulp x"] have "0 \<le> round_even (x / ulp x)"
    by auto
  with ulp_pos [of x] False show ?thesis
    by (simp add: fl_def)
qed

lemma binade_mono:
  assumes "0 < a" and "a \<le> b"
  shows "binade a \<le> binade b"
proof -
  from assms have "0 < b"
    by simp
  from binade_bounds(1) [OF assms(1)] binade_bounds(2) [OF this] assms(2)
  have "(2::real) powi binade a < 2 powi (binade b + 1)"
    by linarith
  then have "binade a < binade b + 1"
    by (rule powi_less_imp)
  then show ?thesis
    by simp
qed

lemma ulp_ge:
  assumes "0 < x"
  shows "2 powi (binade x - 52) \<le> ulp x"
  unfolding ulp_def using assms by (intro power_int_increasing) simp_all

lemma ulp_normal:
  assumes "1 / 2 \<le> x"
  shows "ulp x = 2 powi (binade x - 52)"
proof -
  from assms have pos: "0 < x"
    by simp
  from binade_bounds(2) [OF pos] assms have "(2::real) powi (- 1) < 2 powi (binade x + 1)"
    by simp
  then have "- 1 < binade x + 1"
    by (rule powi_less_imp)
  with pos show ?thesis
    by (simp add: ulp_def)
qed

lemma fl_quotient_floor:
  fixes d :: int
  assumes x: "0 < x" "x < 2 ^ 53"
    and mult: "x = u * of_int k0"
    and ints: "\<And>n :: int. \<exists>k. (of_int n :: real) = u * of_int k"
    and u: "0 < u" "2 powi (binade x - 52) \<le> u"
    and d: "1 \<le> d"
  shows "\<lfloor>fl (x / of_int d)\<rfloor> = \<lfloor>x / of_int d\<rfloor>"
proof -
  define D :: real where "D = of_int d"
  define q where "q = x / D"
  define n where "n = \<lfloor>q\<rfloor>"
  from d have D: "1 \<le> D"
    by (simp add: D_def)
  with x have q: "0 < q" "q \<le> x" "q < 2 ^ 53" and xq: "x = q * D"
    by (simp_all add: q_def field_simps)
  have n: "of_int n \<le> q" "q < of_int n + 1" "0 \<le> n"
    using q(1) unfolding n_def by linarith+
  have lower: "of_int n \<le> fl q"
    unfolding n_def using q by (intro fl_between) simp_all
  have upper: "fl q < of_int n + 1"
  proof (cases "q < 1 / 2")
    case True
    from fl_nearest [of q 0] have "\<bar>fl q - q\<bar> \<le> \<bar>q\<bar>"
      by simp
    with True q(1) n(3) show ?thesis
      by simp
  next
    case False
    then have half: "1 / 2 \<le> q"
      by simp
    have uq: "ulp q = 2 powi (binade q - 52)"
      using half by (rule ulp_normal)
    \<comment> \<open>the dividend is at least one unit below the next multiple of the divisor\<close>
    from ints [of "d * (n + 1)"] obtain k1 where k1: "of_int (d * (n + 1)) = u * of_int k1"
      by blast
    from n(2) D have "q * D < (of_int n + 1) * D"
      by simp
    then have "x < of_int (d * (n + 1))"
      by (simp add: xq D_def algebra_simps)
    then have "u * of_int k0 < u * of_int k1"
      unfolding k1 mult [symmetric] .
    with u(1) have "k0 < k1"
      by simp
    then have "(of_int k0 :: real) + 1 \<le> of_int k1"
      by (metis of_int_1 of_int_add of_int_le_iff zless_imp_add1_zle)
    with u(1) have "u * (of_int k0 + 1) \<le> u * of_int k1"
      by (simp only: mult_le_cancel_left_pos)
    then have "x + u \<le> of_int (d * (n + 1))"
      unfolding k1 by (subst mult) (simp add: algebra_simps)
    then have "x + u \<le> (of_int n + 1) * D"
      by (simp add: D_def algebra_simps)
    with D have gap: "u / D \<le> of_int n + 1 - q"
      by (simp add: q_def field_simps)
    \<comment> \<open>and that unit is more than half a unit of the quotient\<close>
    from binade_bounds(1) [OF q(1)] D have "D * 2 powi binade q \<le> D * q"
      by simp
    also have "D * q = x"
      by (simp add: xq)
    also from binade_bounds(2) [OF x(1)] have "x < 2 powi (binade x + 1)" .
    finally have "D * 2 powi binade q < 2 * 2 powi binade x"
      by (simp add: power_int_add)
    then have "D * (2 powi binade q * 2 powi (- 52)) < 2 * (2 powi binade x * 2 powi (- 52))"
      by simp
    then have "D * ulp q < 2 * 2 powi (binade x - 52)"
      unfolding uq by (simp add: power_int_diff power_int_minus_divide)
    with u(2) have "D * ulp q < 2 * u"
      by linarith
    with D have "ulp q / 2 < u / D"
      by (simp add: field_simps)
    with gap have margin: "ulp q / 2 < of_int n + 1 - q"
      by linarith
    from ulp_integer [OF q(1) q(3), of "n + 1"] obtain k2 where
      k2: "of_int (n + 1) = ulp q * of_int k2"
      by blast
    have "ulp q * of_int (k2 - 1) = of_int n + 1 - ulp q"
      using k2 by (simp add: algebra_simps)
    with fl_nearest [of q "k2 - 1"] have "\<bar>fl q - q\<bar> \<le> \<bar>of_int n + 1 - ulp q - q\<bar>"
      by simp
    with margin ulp_pos [of q] show ?thesis
      by linarith
  qed
  from lower upper have "\<lfloor>fl q\<rfloor> = n"
    by linarith
  then show ?thesis
    by (simp add: n_def q_def D_def)
qed

lemma double_multiple:
  assumes "fl s = s"
  shows "\<exists>k. s = ulp s * of_int k"
proof (cases "s = 0")
  case True
  then have "s = ulp s * of_int 0"
    by simp
  then show ?thesis
    by blast
next
  case False
  with assms have "s = ulp s * of_int (round_even (s / ulp s))"
    by (simp add: fl_def)
  then show ?thesis
    by blast
qed

section \<open>Properties of the time code\<close>

lemma js_String_length_1: "n < 10 \<Longrightarrow> length (js_String n) = 1"
  by (subst js_String.simps) simp

lemma js_String_length_pos: "0 < length (js_String n)"
  by (subst js_String.simps) simp

lemma js_String_length_2: "n < 100 \<Longrightarrow> length (js_String n) \<le> 2"
  by (subst js_String.simps) (simp add: js_String_length_1)

lemma js_String_length_3: "n < 1000 \<Longrightarrow> length (js_String n) \<le> 3"
proof -
  assume "n < 1000"
  then have "n div 10 < 100" by simp
  then have "length (js_String (n div 10)) \<le> 2" by (rule js_String_length_2)
  then show ?thesis
    by (subst js_String.simps) simp
qed

lemma padStart_length: "length (padStart w c s) = max w (length s)"
  by (simp add: padStart_def)

lemma js_rem_nonneg:
  assumes "0 \<le> x" and "0 < y"
  shows "js_rem x y = x - y * of_int \<lfloor>x / y\<rfloor>"
  using assms by (simp add: js_rem_def js_trunc_def)

lemma js_String_int_nat: "0 \<le> k \<Longrightarrow> js_String_int k = js_String (nat k)"
  by (simp add: js_String_int_def)

lemma pad2_length:
  assumes "n < 100"
  shows "length (padStart 2 c (js_String n)) = 2"
  using js_String_length_2 [OF assms] by (simp add: padStart_length)

lemma pad3_length:
  assumes "n < 1000"
  shows "length (padStart 3 c (js_String n)) = 3"
  using js_String_length_3 [OF assms] by (simp add: padStart_length)

lemma padStart_short:
  "padStart 2 c [a] = [c, a]"
  "padStart 2 c [a, b] = [a, b]"
  "padStart 3 c [a] = [c, c, a]"
  "padStart 3 c [a, b] = [c, a, b]"
  "padStart 3 c [a, b, d] = [a, b, d]"
  by (simp_all add: padStart_def numeral_2_eq_2 numeral_3_eq_3)

text \<open>The equations that evaluate a time code at a given number.\<close>

lemmas fl_eval = fl_def ulp_def binade_def round_even_def Let_def log2_nat.simps

lemmas formatTimestamp_eval =
  formatTimestamp_def ts_hours_def ts_minutes_def ts_secs_def ts_millis_def
  js_rem_def js_trunc_def js_String_int_def js_String.simps digit_char_def padStart_short
  fl_eval

lemma ts_secs_eq:
  assumes "0 \<le> s"
  shows "ts_secs s = \<lfloor>s\<rfloor> mod 60"
proof -
  have d: "\<lfloor>s / 60\<rfloor> = \<lfloor>s\<rfloor> div 60"
    using floor_divide_real_eq_div [of 60 s] by simp
  have "js_rem s 60 = s - of_int (60 * (\<lfloor>s\<rfloor> div 60))"
    using assms by (simp add: js_rem_nonneg d)
  then have "ts_secs s = \<lfloor>s\<rfloor> - 60 * (\<lfloor>s\<rfloor> div 60)"
    unfolding ts_secs_def by (simp only: floor_diff_of_int)
  then show ?thesis
    by (simp add: minus_mult_div_eq_mod)
qed

lemma rem_3600:
  assumes "0 \<le> s"
  shows "js_rem s 3600 = s - of_int (3600 * (\<lfloor>s\<rfloor> div 3600))"
    and "\<lfloor>js_rem s 3600 / 60\<rfloor> = \<lfloor>s\<rfloor> mod 3600 div 60"
    and "0 \<le> js_rem s 3600" and "js_rem s 3600 < 3600" and "js_rem s 3600 \<le> s"
proof -
  have d: "\<lfloor>s / 3600\<rfloor> = \<lfloor>s\<rfloor> div 3600"
    using floor_divide_real_eq_div [of 3600 s] by simp
  show r: "js_rem s 3600 = s - of_int (3600 * (\<lfloor>s\<rfloor> div 3600))"
    using assms by (simp add: js_rem_nonneg d)
  then have "\<lfloor>js_rem s 3600\<rfloor> = \<lfloor>s\<rfloor> - 3600 * (\<lfloor>s\<rfloor> div 3600)"
    by (simp only: floor_diff_of_int)
  then have m: "\<lfloor>js_rem s 3600\<rfloor> = \<lfloor>s\<rfloor> mod 3600"
    by (simp add: minus_mult_div_eq_mod)
  then show "\<lfloor>js_rem s 3600 / 60\<rfloor> = \<lfloor>s\<rfloor> mod 3600 div 60"
    using floor_divide_real_eq_div [of 60 "js_rem s 3600"] by simp
  have "0 \<le> \<lfloor>s\<rfloor> mod 3600" and "\<lfloor>s\<rfloor> mod 3600 < 3600"
    by simp_all
  then have "0 \<le> \<lfloor>js_rem s 3600\<rfloor>" and "\<lfloor>js_rem s 3600\<rfloor> < 3600"
    unfolding m by simp_all
  then show "0 \<le> js_rem s 3600" and "js_rem s 3600 < 3600"
    by linarith+
  from assms have "0 \<le> \<lfloor>s\<rfloor> div 3600"
    by (simp add: pos_imp_zdiv_nonneg_iff)
  then have "(0::real) \<le> of_int (3600 * (\<lfloor>s\<rfloor> div 3600))"
    by simp
  then show "js_rem s 3600 \<le> s"
    unfolding r by linarith
qed

lemma frac_ms:
  assumes "0 \<le> s"
  shows "\<lfloor>js_rem s 1 * 1000\<rfloor> = \<lfloor>s * 1000\<rfloor> mod 1000"
    and "js_rem s 1 = s - of_int \<lfloor>s\<rfloor>"
    and "0 \<le> js_rem s 1 * 1000" and "js_rem s 1 * 1000 < 1000"
proof -
  have fl: "\<lfloor>s\<rfloor> = \<lfloor>s * 1000\<rfloor> div 1000"
    using floor_divide_real_eq_div [of 1000 "s * 1000"] by simp
  show r: "js_rem s 1 = s - of_int \<lfloor>s\<rfloor>"
    using assms by (simp add: js_rem_nonneg)
  then have "js_rem s 1 * 1000 = s * 1000 - of_int (1000 * \<lfloor>s\<rfloor>)"
    by (simp add: algebra_simps)
  then have "\<lfloor>js_rem s 1 * 1000\<rfloor> = \<lfloor>s * 1000\<rfloor> - 1000 * \<lfloor>s\<rfloor>"
    by (simp only: floor_diff_of_int)
  then show "\<lfloor>js_rem s 1 * 1000\<rfloor> = \<lfloor>s * 1000\<rfloor> mod 1000"
    unfolding fl by (simp add: minus_mult_div_eq_mod)
  have "0 \<le> s - of_int \<lfloor>s\<rfloor>" and "s - of_int \<lfloor>s\<rfloor> < 1"
    by linarith+
  then show "0 \<le> js_rem s 1 * 1000" and "js_rem s 1 * 1000 < 1000"
    unfolding r by simp_all
qed

lemma ts_millis_cases:
  assumes "0 \<le> s"
  shows "ts_millis s = \<lfloor>s * 1000\<rfloor> mod 1000 \<or> ts_millis s = \<lfloor>s * 1000\<rfloor> mod 1000 + 1"
proof -
  from frac_ms(4) [OF assms] have "js_rem s 1 * 1000 < 2 ^ 53"
    by simp
  from fl_floor [OF frac_ms(3) [OF assms] this] show ?thesis
    unfolding ts_millis_def frac_ms(1) [OF assms] .
qed

lemma ts_millis_range:
  assumes "0 \<le> s" and "fl s = s"
  shows "0 \<le> ts_millis s" and "ts_millis s \<le> 999"
proof -
  from frac_ms(3) [OF assms(1)] have "0 \<le> fl (js_rem s 1 * 1000)"
    by (rule fl_nonneg)
  then show "0 \<le> ts_millis s"
    by (simp add: ts_millis_def)
  from double_frac [OF assms] have "js_rem s 1 \<le> 1 - 1 / 2 ^ 53"
    unfolding frac_ms(2) [OF assms(1)] .
  then have "js_rem s 1 * 1000 \<le> 1000 - 1000 / 2 ^ 53"
    by simp
  with frac_ms(3) [OF assms(1)] have "fl (js_rem s 1 * 1000) < 1000"
    by (rule fl_below_1000)
  then show "ts_millis s \<le> 999"
    unfolding ts_millis_def by linarith
qed

lemma ts_hours_eq:
  assumes "0 \<le> s" and "fl s = s" and "s < 2 ^ 53"
  shows "ts_hours s = \<lfloor>s\<rfloor> div 3600"
proof (cases "s = 0")
  case True
  then show ?thesis
    by (simp add: ts_hours_def fl_def)
next
  case False
  with assms(1) have pos: "0 < s"
    by simp
  from double_multiple [OF assms(2)] obtain k0 where k0: "s = ulp s * of_int k0"
    by blast
  have "\<lfloor>fl (s / of_int 3600)\<rfloor> = \<lfloor>s / of_int 3600\<rfloor>"
    using pos assms(3) k0 ulp_integer [OF pos assms(3)] ulp_pos ulp_ge [OF pos]
    by (rule fl_quotient_floor) simp
  then show ?thesis
    using floor_divide_real_eq_div [of 3600 s] by (simp add: ts_hours_def)
qed

lemma ts_minutes_eq:
  assumes "0 \<le> s" and "fl s = s" and "s < 2 ^ 53"
  shows "ts_minutes s = \<lfloor>s\<rfloor> mod 3600 div 60"
proof (cases "js_rem s 3600 = 0")
  case True
  with rem_3600(2) [OF assms(1)] show ?thesis
    by (simp add: ts_minutes_def fl_def)
next
  case False
  define r where "r = js_rem s 3600"
  from False rem_3600(3-5) [OF assms(1)] have r: "0 < r" "r < 3600" "r \<le> s"
    by (simp_all add: r_def)
  then have pos: "0 < s"
    by simp
  from double_multiple [OF assms(2)] obtain k0 where k0: "s = ulp s * of_int k0"
    by blast
  from ulp_integer [OF pos assms(3), of "3600 * (\<lfloor>s\<rfloor> div 3600)"] obtain k1 where
    k1: "of_int (3600 * (\<lfloor>s\<rfloor> div 3600)) = ulp s * of_int k1"
    by blast
  have "r = ulp s * of_int k0 - ulp s * of_int k1"
    unfolding r_def rem_3600(1) [OF assms(1)] k1 by (subst k0) (rule refl)
  then have mult: "r = ulp s * of_int (k0 - k1)"
    by (simp add: algebra_simps)
  from binade_mono [OF r(1) r(3)] have "(2::real) powi (binade r - 52) \<le> 2 powi (binade s - 52)"
    by (intro power_int_increasing) simp_all
  with ulp_ge [OF pos] have u: "2 powi (binade r - 52) \<le> ulp s"
    by linarith
  from r(2) have "r < 2 ^ 53"
    by simp
  with r(1) have "\<lfloor>fl (r / of_int 60)\<rfloor> = \<lfloor>r / of_int 60\<rfloor>"
    using mult ulp_integer [OF pos assms(3)] ulp_pos u
    by (rule fl_quotient_floor) simp
  then show ?thesis
    using rem_3600(2) [OF assms(1)] by (simp add: ts_minutes_def r_def)
qed

lemma ts_fields_nat:
  assumes "0 \<le> seconds" and "fl seconds = seconds" and "seconds < 2 ^ 53"
  shows "ts_hours seconds = int (nat \<lfloor>seconds\<rfloor> div 3600)"
    and "ts_minutes seconds = int (nat \<lfloor>seconds\<rfloor> mod 3600 div 60)"
    and "ts_secs seconds = int (nat \<lfloor>seconds\<rfloor> mod 60)"
    and "ts_millis seconds = int (nat (ts_millis seconds))"
proof -
  from assms(1) have n: "\<lfloor>seconds\<rfloor> = int (nat \<lfloor>seconds\<rfloor>)"
    by simp
  show "ts_hours seconds = int (nat \<lfloor>seconds\<rfloor> div 3600)"
    by (subst ts_hours_eq [OF assms], subst n) (simp only: zdiv_int of_nat_numeral)
  show "ts_minutes seconds = int (nat \<lfloor>seconds\<rfloor> mod 3600 div 60)"
    by (subst ts_minutes_eq [OF assms], subst n) (simp only: zdiv_int zmod_int of_nat_numeral)
  show "ts_secs seconds = int (nat \<lfloor>seconds\<rfloor> mod 60)"
    by (subst ts_secs_eq [OF assms(1)], subst n) (simp only: zmod_int of_nat_numeral)
  show "ts_millis seconds = int (nat (ts_millis seconds))"
    using ts_millis_range(1) [OF assms(1,2)] by simp
qed

lemma ts_millis_nat:
  assumes "0 \<le> seconds" and "fl seconds = seconds"
  shows "nat (ts_millis seconds) = nat \<lfloor>seconds * 1000\<rfloor> mod 1000
       \<or> nat (ts_millis seconds) = nat \<lfloor>seconds * 1000\<rfloor> mod 1000 + 1"
    and "nat (ts_millis seconds) \<le> 999"
proof -
  from assms(1) have "0 \<le> \<lfloor>seconds * 1000\<rfloor>"
    by simp
  then have "int (nat \<lfloor>seconds * 1000\<rfloor> mod 1000) = \<lfloor>seconds * 1000\<rfloor> mod 1000"
    by (simp add: zmod_int)
  with ts_millis_cases [OF assms(1)] show "nat (ts_millis seconds) = nat \<lfloor>seconds * 1000\<rfloor> mod 1000
       \<or> nat (ts_millis seconds) = nat \<lfloor>seconds * 1000\<rfloor> mod 1000 + 1"
    by linarith
  from ts_millis_range(2) [OF assms] show "nat (ts_millis seconds) \<le> 999"
    by simp
qed

text \<open>
  Claim C5, amended. For a double that is not negative (and below
  \<open>2 ^ 53\<close> seconds) the time code is the hours, minutes and seconds of the whole
  seconds and the millisecond field, each in decimal and filled with zeros to
  two, two, two and three characters, separated by \<open>:\<close>, \<open>:\<close> and \<open>,\<close>.
  The millisecond field is \<open>Math.floor\<close> of the double product
  \<open>(seconds % 1) * 1000\<close>: the milliseconds of the time truncated to whole
  milliseconds, or one more where the product rounds up to a whole number; it
  is at most 999. The minutes, seconds and milliseconds fields have exactly
  their width, the hours field has it below 100 hours (12 characters in all),
  and \<open>formatTimestamp(3725.4567)\<close> is 01:02:05,456.
\<close>

theorem formatTimestamp_layout:
  assumes "0 \<le> seconds" and "fl seconds = seconds" and "seconds < 2 ^ 53"
  shows "formatTimestamp seconds =
           padStart 2 CHR ''0'' (js_String (nat \<lfloor>seconds\<rfloor> div 3600)) @ '':'' @
           padStart 2 CHR ''0'' (js_String (nat \<lfloor>seconds\<rfloor> mod 3600 div 60)) @ '':'' @
           padStart 2 CHR ''0'' (js_String (nat \<lfloor>seconds\<rfloor> mod 60)) @ '','' @
           padStart 3 CHR ''0'' (js_String (nat (ts_millis seconds)))
       \<and> (nat (ts_millis seconds) = nat \<lfloor>seconds * 1000\<rfloor> mod 1000
            \<or> nat (ts_millis seconds) = nat \<lfloor>seconds * 1000\<rfloor> mod 1000 + 1)
       \<and> nat (ts_millis seconds) \<le> 999
       \<and> 2 \<le> length (padStart 2 CHR ''0'' (js_String (nat \<lfloor>seconds\<rfloor> div 3600)))
       \<and> length (padStart 2 CHR ''0'' (js_String (nat \<lfloor>seconds\<rfloor> mod 3600 div 60))) = 2
       \<and> length (padStart 2 CHR ''0'' (js_String (nat \<lfloor>seconds\<rfloor> mod 60))) = 2
       \<and> length (padStart 3 CHR ''0'' (js_String (nat (ts_millis seconds)))) = 3
       \<and> (seconds < 360000 \<longrightarrow> length (formatTimestamp seconds) = 12)
       \<and> formatTimestamp (fl 3725.4567) = ''01:02:05,456''"
proof -
  let ?h = "nat \<lfloor>seconds\<rfloor> div 3600"
  let ?m = "nat \<lfloor>seconds\<rfloor> mod 3600 div 60"
  let ?s = "nat \<lfloor>seconds\<rfloor> mod 60"
  let ?ms = "nat (ts_millis seconds)"
  have fields: "js_String_int (ts_hours seconds) = js_String ?h"
    "js_String_int (ts_minutes seconds) = js_String ?m"
    "js_String_int (ts_secs seconds) = js_String ?s"
    "js_String_int (ts_millis seconds) = js_String ?ms"
    by (subst ts_fields_nat [OF assms], simp only: js_String_int_nat of_nat_0_le_iff nat_int)+
  have layout: "formatTimestamp seconds =
      padStart 2 CHR ''0'' (js_String ?h) @ '':'' @ padStart 2 CHR ''0'' (js_String ?m) @ '':'' @
      padStart 2 CHR ''0'' (js_String ?s) @ '','' @ padStart 3 CHR ''0'' (js_String ?ms)"
    unfolding formatTimestamp_def fields by (rule refl)
  note millis = ts_millis_nat [OF assms(1,2)]
  have h: "2 \<le> length (padStart 2 CHR ''0'' (js_String ?h))"
    by (simp add: padStart_length)
  have "?m < 100"
    by simp
  then have m: "length (padStart 2 CHR ''0'' (js_String ?m)) = 2"
    by (rule pad2_length)
  have "?s < 100"
    by simp
  then have s: "length (padStart 2 CHR ''0'' (js_String ?s)) = 2"
    by (rule pad2_length)
  from millis(2) have "?ms < 1000"
    by simp
  then have ms: "length (padStart 3 CHR ''0'' (js_String ?ms)) = 3"
    by (rule pad3_length)
  have total: "length (formatTimestamp seconds) = 12" if "seconds < 360000"
  proof -
    from that have "\<lfloor>seconds\<rfloor> < 360000"
      by (simp add: floor_less_iff)
    then have "nat \<lfloor>seconds\<rfloor> < 360000"
      by linarith
    then have "?h < 100"
      by simp
    then have "length (padStart 2 CHR ''0'' (js_String ?h)) = 2"
      by (rule pad2_length)
    with m s ms show ?thesis
      unfolding layout by simp
  qed
  have example: "formatTimestamp (fl 3725.4567) = ''01:02:05,456''"
    by (simp add: formatTimestamp_eval)
  from layout millis h m s ms total example show ?thesis
    by blast
qed

text \<open>
  Claim C5, as stated, has the fractional seconds truncated to whole
  milliseconds. The double that the literal 0.3 denotes is below 0.3 and
  truncates to 299 milliseconds, but its product with 1000 rounds to 300 and
  the code prints 300; the literal 1.4 has 400 milliseconds, but its double is
  below 1.4 and the code prints 399.
\<close>

theorem formatTimestamp_rounds_up:
  "fl 0.3 = 5404319552844595 / 2 ^ 54
   \<and> nat \<lfloor>fl 0.3 * 1000\<rfloor> mod 1000 = 299
   \<and> formatTimestamp (fl 0.3) = ''00:00:00,300''
   \<and> formatTimestamp (fl 0.3) \<noteq> ''00:00:00,299''
   \<and> nat \<lfloor>(1.4 :: real) * 1000\<rfloor> mod 1000 = 400
   \<and> formatTimestamp (fl 1.4) = ''00:00:01,399''"
proof -
  have v: "fl 0.3 = 5404319552844595 / 2 ^ 54"
    by (simp add: fl_eval)
  have "nat \<lfloor>fl 0.3 * 1000\<rfloor> mod 1000 = 299"
    unfolding v by simp
  moreover have a: "formatTimestamp (fl 0.3) = ''00:00:00,300''"
    by (simp add: formatTimestamp_eval)
  moreover have "formatTimestamp (fl 0.3) \<noteq> ''00:00:00,299''"
    unfolding a by simp
  moreover have "nat \<lfloor>(1.4 :: real) * 1000\<rfloor> mod 1000 = 400"
    by simp
  moreover have "formatTimestamp (fl 1.4) = ''00:00:01,399''"
    by (simp add: formatTimestamp_eval)
  ultimately show ?thesis
    using v by (intro conjI)
qed

theorem formatTimestamp_layout_witness:
  "(0 :: real) \<le> fl 3725.4567
   \<and> fl (fl 3725.4567) = fl 3725.4567
   \<and> fl 3725.4567 < 2 ^ 53
   \<and> nat \<lfloor>fl 3725.4567\<rfloor> div 3600 = 1
   \<and> nat \<lfloor>fl 3725.4567\<rfloor> mod 3600 div 60 = 2
   \<and> nat \<lfloor>fl 3725.4567\<rfloor> mod 60 = 5
   \<and> nat \<lfloor>fl 3725.4567 * 1000\<rfloor> mod 1000 = 456
   \<and> nat (ts_millis (fl 3725.4567)) = 456
   \<and> formatTimestamp (fl 3725.4567) =
       padStart 2 CHR ''0'' (js_String 1) @ '':'' @ padStart 2 CHR ''0'' (js_String 2) @ '':'' @
       padStart 2 CHR ''0'' (js_String 5) @ '','' @ padStart 3 CHR ''0'' (js_String 456)
   \<and> length (formatTimestamp (fl 3725.4567)) = 12"
proof -
  have v: "fl 3725.4567 = 8192365920852011 / 2 ^ 41"
    by (simp add: fl_eval)
  have h: "(0 :: real) \<le> fl 3725.4567" "fl (fl 3725.4567) = fl 3725.4567" "fl 3725.4567 < 2 ^ 53"
    unfolding v by (simp_all add: fl_eval)
  have f: "nat \<lfloor>fl 3725.4567\<rfloor> div 3600 = 1"
    "nat \<lfloor>fl 3725.4567\<rfloor> mod 3600 div 60 = 2"
    "nat \<lfloor>fl 3725.4567\<rfloor> mod 60 = 5"
    "nat \<lfloor>fl 3725.4567 * 1000\<rfloor> mod 1000 = 456"
    unfolding v by simp_all
  have ms: "nat (ts_millis (fl 3725.4567)) = 456"
    unfolding v by (simp add: ts_millis_def js_rem_def js_trunc_def fl_eval)
  note run = formatTimestamp_layout [OF h]
  from run have "formatTimestamp (fl 3725.4567) =
      padStart 2 CHR ''0'' (js_String (nat \<lfloor>fl 3725.4567\<rfloor> div 3600)) @ '':'' @
      padStart 2 CHR ''0'' (js_String (nat \<lfloor>fl 3725.4567\<rfloor> mod 3600 div 60)) @ '':'' @
      padStart 2 CHR ''0'' (js_String (nat \<lfloor>fl 3725.4567\<rfloor> mod 60)) @ '','' @
      padStart 3 CHR ''0'' (js_String (nat (ts_millis (fl 3725.4567))))"
    by (rule conjunct1)
  then have layout: "formatTimestamp (fl 3725.4567) =
       padStart 2 CHR ''0'' (js_String 1) @ '':'' @ padStart 2 CHR ''0'' (js_String 2) @ '':'' @
       padStart 2 CHR ''0'' (js_String 5) @ '','' @ padStart 3 CHR ''0'' (js_String 456)"
    unfolding f ms .
  from run have "fl 3725.4567 < 360000 \<longrightarrow> length (formatTimestamp (fl 3725.4567)) = 12"
    by blast
  moreover have "fl 3725.4567 < 360000"
    unfolding v by simp
  ultimately have len: "length (formatTimestamp (fl 3725.4567)) = 12"
    by (rule mp)
  from h f ms layout len show ?thesis
    by (intro conjI)
qed

section \<open>Properties of the cue builder\<close>

lemma ceil_div3: "nat \<lceil>real n / 3\<rceil> = (n + 2) div 3"
proof -
  have "\<lceil>real n / 3\<rceil> = \<lceil>of_int (int n) / (of_int 3 :: real)\<rceil>"
    by simp
  also have "\<dots> = - (- int n div 3)"
    by (rule ceiling_divide_eq_div)
  also have "\<dots> = int ((n + 2) div 3)"
    by (simp add: zdiv_int)
  finally show ?thesis
    by simp
qed

lemma chunk_count_step:
  assumes "i < n"
  shows "(n - i + 2) div 3 = Suc ((n - (i + 3) + 2) div 3)"
  using assms by presburger

lemma cues_loop_eq:
  "cues_loop words i index cues =
     cues @ map (\<lambda>k. chunk_cue (index + k) (take 3 (drop (i + 3 * k) words)))
       [0..<(length words - i + 2) div 3]"
proof (induction words i index cues rule: cues_loop.induct)
  case (1 words i index cues)
  show ?case
  proof (cases "i < length words")
    case True
    have step: "cues_loop words i index cues =
        cues_loop words (i + 3) (index + 1) (cues @ [chunk_cue index (take 3 (drop i words))])"
      using True by (subst cues_loop.simps) (simp add: Let_def slice_def)
    have range: "[0..<(length words - i + 2) div 3] =
        0 # map Suc [0..<(length words - (i + 3) + 2) div 3]"
      unfolding chunk_count_step [OF True] by (simp only: upt_conv_Cons zero_less_Suc map_Suc_upt)
    have IH: "cues_loop words (i + 3) (index + 1) (cues @ [chunk_cue index (take 3 (drop i words))]) =
        (cues @ [chunk_cue index (take 3 (drop i words))]) @
        map (\<lambda>k. chunk_cue (index + 1 + k) (take 3 (drop (i + 3 + 3 * k) words)))
          [0..<(length words - (i + 3) + 2) div 3]"
      using "1.IH" [OF True refl] by (simp add: slice_def)
    have "map (\<lambda>k. chunk_cue (index + k) (take 3 (drop (i + 3 * k) words)))
          (0 # map Suc [0..<(length words - (i + 3) + 2) div 3]) =
        chunk_cue index (take 3 (drop i words)) #
        map (\<lambda>k. chunk_cue (index + 1 + k) (take 3 (drop (i + 3 + 3 * k) words)))
          [0..<(length words - (i + 3) + 2) div 3]"
      by (simp add: comp_def add.assoc)
    then show ?thesis
      unfolding step IH range by simp
  next
    case False
    then have "(length words - i + 2) div 3 = 0"
      by simp
    with False show ?thesis
      by (subst cues_loop.simps) simp
  qed
qed

lemma srtCues_eq:
  "srtCues words =
     map (\<lambda>k. chunk_cue (k + 1) (take 3 (drop (3 * k) words))) [0..<(length words + 2) div 3]"
  by (simp add: srtCues_def cues_loop_eq)

lemma concat_chunks:
  "concat (map (\<lambda>k. take m (drop (m * k) xs)) [0..<n]) = take (m * n) xs"
proof (induction n)
  case 0
  then show ?case by simp
next
  case (Suc n)
  have "take (m * n + m) xs = take (m * n) xs @ take m (drop (m * n) xs)"
    by (rule take_add)
  moreover have "m * Suc n = m * n + m"
    by simp
  ultimately have "take (m * Suc n) xs = take (m * n) xs @ take m (drop (m * n) xs)"
    by (simp only:)
  with Suc show ?case
    by (simp del: mult_Suc_right)
qed

lemma join_append:
  "xs \<noteq> [] \<Longrightarrow> ys \<noteq> [] \<Longrightarrow> join sep (xs @ ys) = join sep xs @ sep @ join sep ys"
  by (induction sep xs rule: join.induct) (auto simp: neq_Nil_conv)

lemma join_concat:
  assumes "\<forall>cs \<in> set css. cs \<noteq> []"
  shows "join sep (map (join sep) css) = join sep (concat css)"
  using assms
proof (induction css)
  case Nil
  then show ?case by simp
next
  case (Cons cs css)
  show ?case
  proof (cases "css = []")
    case True
    then show ?thesis by simp
  next
    case False
    then obtain d ds where css: "css = d # ds"
      by (auto simp: neq_Nil_conv)
    from Cons.prems css have "cs \<noteq> []" and "concat css \<noteq> []"
      by auto
    then have "join sep (cs @ concat css) = join sep cs @ sep @ join sep (concat css)"
      by (rule join_append)
    moreover from Cons have "join sep (map (join sep) css) = join sep (concat css)"
      by simp
    ultimately show ?thesis
      by (simp add: css)
  qed
qed


text \<open>The words of the chunk with 0-based number \<open>k\<close>: the slice from \<open>3 * k\<close>
  to \<open>3 * k + 3\<close>.\<close>

definition chunk_at :: "word list \<Rightarrow> nat \<Rightarrow> word list" where
  "chunk_at words k = take 3 (drop (3 * k) words)"

lemma srtCues_chunks:
  "srtCues words = map (\<lambda>k. chunk_cue (k + 1) (chunk_at words k)) [0..<(length words + 2) div 3]"
  by (simp add: srtCues_eq chunk_at_def)

lemma chunk_at_length:
  assumes "k < (length words + 2) div 3"
  shows "1 \<le> length (chunk_at words k)" and "length (chunk_at words k) \<le> 3"
    and "k + 1 < (length words + 2) div 3 \<Longrightarrow> length (chunk_at words k) = 3"
proof -
  from assms have "3 * k < length words"
    by presburger
  then show "1 \<le> length (chunk_at words k)"
    by (simp add: chunk_at_def)
  show "length (chunk_at words k) \<le> 3"
    by (simp add: chunk_at_def)
  assume "k + 1 < (length words + 2) div 3"
  then have "3 * k + 3 \<le> length words"
    by presburger
  then show "length (chunk_at words k) = 3"
    by (simp add: chunk_at_def)
qed

lemma chunks_concat:
  "concat (map (chunk_at words) [0..<(length words + 2) div 3]) = words"
proof -
  have "length words \<le> 3 * ((length words + 2) div 3)"
    by presburger
  then have "take (3 * ((length words + 2) div 3)) words = words"
    by simp
  then show ?thesis
    using concat_chunks [of 3 words "(length words + 2) div 3"]
    by (simp add: chunk_at_def [abs_def])
qed

lemma chunk_cue_fields:
  assumes "chunk \<noteq> []"
  shows "cue_index (chunk_cue index chunk) = index"
    and "cue_text (chunk_cue index chunk) = join '' '' (map w_word chunk)"
    and "cue_start (chunk_cue index chunk) = formatTimestamp (w_start (hd chunk))"
    and "cue_end (chunk_cue index chunk) = formatTimestamp (w_end (last chunk))"
  using assms by (simp_all add: chunk_cue_def Let_def hd_conv_nth last_conv_nth)

lemma srtCues_texts:
  "join '' '' (map cue_text (srtCues words)) = join '' '' (map w_word words)"
proof -
  let ?n = "(length words + 2) div 3"
  let ?css = "map (\<lambda>k. map w_word (chunk_at words k)) [0..<?n]"
  have "map cue_text (srtCues words) = map (join '' '') ?css"
    by (simp add: srtCues_chunks chunk_cue_def Let_def comp_def)
  moreover have "\<forall>cs \<in> set ?css. cs \<noteq> []"
    using chunk_at_length(1) [of _ words] by fastforce
  then have "join '' '' (map (join '' '') ?css) = join '' '' (concat ?css)"
    by (rule join_concat)
  moreover have "concat ?css = map w_word (concat (map (chunk_at words) [0..<?n]))"
    by (simp add: map_concat comp_def)
  ultimately show ?thesis
    by (simp only: chunks_concat)
qed

text \<open>
  Claim C4. For every word list the cue builder produces
  \<open>ceil(wordCount / 3)\<close> cues with the indices 1, 2, 3, ... in order. Cue
  \<open>k\<close> belongs to the chunk of the words \<open>3 * k\<close> to \<open>3 * k + 2\<close>, which has
  one to three words (three unless it is the last) and is never dropped: it
  starts at the chunk's first word, ends at its last word, and its text is
  the words' texts joined with a single space. The chunks in order are the
  word list, so the cue texts joined with a space are all the words in order;
  an empty word list gives no cue.
\<close>

theorem caption_cues:
  "length (srtCues words) = nat \<lceil>real (length words) / 3\<rceil>
   \<and> map cue_index (srtCues words) = [1..<Suc (length (srtCues words))]
   \<and> (\<forall>k. k < length (srtCues words) \<longrightarrow>
        1 \<le> length (chunk_at words k) \<and> length (chunk_at words k) \<le> 3
        \<and> (k + 1 < length (srtCues words) \<longrightarrow> length (chunk_at words k) = 3)
        \<and> cue_index (srtCues words ! k) = k + 1
        \<and> cue_text (srtCues words ! k) = join '' '' (map w_word (chunk_at words k))
        \<and> cue_start (srtCues words ! k) = formatTimestamp (w_start (hd (chunk_at words k)))
        \<and> cue_end (srtCues words ! k) = formatTimestamp (w_end (last (chunk_at words k))))
   \<and> concat (map (chunk_at words) [0..<length (srtCues words)]) = words
   \<and> join '' '' (map cue_text (srtCues words)) = join '' '' (map w_word words)
   \<and> srtCues [] = []"
proof -
  let ?n = "(length words + 2) div 3"
  have n: "length (srtCues words) = ?n"
    by (simp add: srtCues_chunks)
  have count: "length (srtCues words) = nat \<lceil>real (length words) / 3\<rceil>"
    unfolding n by (simp only: ceil_div3)
  have "map cue_index (srtCues words) = map Suc [0..<?n]"
    by (simp add: srtCues_chunks chunk_cue_def Let_def comp_def)
  then have indices: "map cue_index (srtCues words) = [1..<Suc (length (srtCues words))]"
    unfolding n by (simp only: map_Suc_upt One_nat_def)
  have each: "1 \<le> length (chunk_at words k) \<and> length (chunk_at words k) \<le> 3
        \<and> (k + 1 < length (srtCues words) \<longrightarrow> length (chunk_at words k) = 3)
        \<and> cue_index (srtCues words ! k) = k + 1
        \<and> cue_text (srtCues words ! k) = join '' '' (map w_word (chunk_at words k))
        \<and> cue_start (srtCues words ! k) = formatTimestamp (w_start (hd (chunk_at words k)))
        \<and> cue_end (srtCues words ! k) = formatTimestamp (w_end (last (chunk_at words k)))"
    if "k < length (srtCues words)" for k
  proof -
    from that have k: "k < ?n"
      by (simp only: n)
    then have cue: "srtCues words ! k = chunk_cue (k + 1) (chunk_at words k)"
      by (simp add: srtCues_chunks)
    from chunk_at_length(1) [OF k] have "chunk_at words k \<noteq> []"
      by auto
    then show ?thesis
      unfolding cue n using chunk_at_length [OF k] by (simp add: chunk_cue_fields)
  qed
  have cover: "concat (map (chunk_at words) [0..<length (srtCues words)]) = words"
    unfolding n by (rule chunks_concat)
  have empty: "srtCues [] = []"
    by (simp add: srtCues_chunks)
  from count indices each cover srtCues_texts empty show ?thesis
    by blast
qed

text \<open>A transcript of seven words, with the times as they are read from the
  response of the transcription service.\<close>

definition example_words :: "word list" where
  "example_words =
     [\<lparr>w_word = ''Hello'', w_start = fl 0, w_end = fl 0.4\<rparr>,
      \<lparr>w_word = ''and'', w_start = fl 0.5, w_end = fl 0.7\<rparr>,
      \<lparr>w_word = ''welcome'', w_start = fl 0.7, w_end = fl 1.25\<rparr>,
      \<lparr>w_word = ''to'', w_start = fl 1.3, w_end = fl 1.4\<rparr>,
      \<lparr>w_word = ''the'', w_start = fl 1.4, w_end = fl 1.5\<rparr>,
      \<lparr>w_word = ''daily'', w_start = fl 1.5, w_end = fl 2\<rparr>,
      \<lparr>w_word = ''show.'', w_start = fl 2.1, w_end = fl 2.75\<rparr>]"

lemma example_times:
  "formatTimestamp (fl 0) = ''00:00:00,000''"
  "formatTimestamp (fl (5 / 4)) = ''00:00:01,250''"
  "formatTimestamp (fl (13 / 10)) = ''00:00:01,300''"
  "formatTimestamp (fl 2) = ''00:00:02,000''"
  "formatTimestamp (fl (21 / 10)) = ''00:00:02,100''"
  "formatTimestamp (fl (11 / 4)) = ''00:00:02,750''"
  by (simp_all add: formatTimestamp_eval)

lemma example_cues:
  "srtCues example_words =
     [\<lparr>cue_index = 1, cue_start = ''00:00:00,000'', cue_end = ''00:00:01,250'',
       cue_text = ''Hello and welcome''\<rparr>,
      \<lparr>cue_index = 2, cue_start = ''00:00:01,300'', cue_end = ''00:00:02,000'',
       cue_text = ''to the daily''\<rparr>,
      \<lparr>cue_index = 3, cue_start = ''00:00:02,100'', cue_end = ''00:00:02,750'',
       cue_text = ''show.''\<rparr>]"
  unfolding srtCues_def example_words_def
  by (simp add: cues_loop.simps Let_def slice_def chunk_cue_def example_times)

theorem caption_cues_witness:
  "length (srtCues example_words) = 3
   \<and> map cue_index (srtCues example_words) = [1, 2, 3]
   \<and> map (\<lambda>k. length (chunk_at example_words k)) [0, 1, 2] = [3, 3, 1]
   \<and> map cue_text (srtCues example_words) = [''Hello and welcome'', ''to the daily'', ''show.'']
   \<and> join '' '' (map cue_text (srtCues example_words)) = ''Hello and welcome to the daily show.''"
proof -
  note run = caption_cues [of example_words]
  have n: "nat \<lceil>real (length example_words) / 3\<rceil> = 3"
    by (simp add: example_words_def)
  from run have "length (srtCues example_words) = nat \<lceil>real (length example_words) / 3\<rceil>"
    by (rule conjunct1)
  then have count: "length (srtCues example_words) = 3"
    by (simp only: n)
  from run have "map cue_index (srtCues example_words) = [1..<Suc (length (srtCues example_words))]"
    by (rule conjunct1 [OF conjunct2])
  then have indices: "map cue_index (srtCues example_words) = [1, 2, 3]"
    unfolding count by (simp add: upt_rec)
  from run have "join '' '' (map cue_text (srtCues example_words)) =
      join '' '' (map w_word example_words)"
    by blast
  then have joined: "join '' '' (map cue_text (srtCues example_words)) =
      ''Hello and welcome to the daily show.''"
    by (simp add: example_words_def)
  have sizes: "map (\<lambda>k. length (chunk_at example_words k)) [0, 1, 2] = [3, 3, 1]"
    by (simp add: chunk_at_def example_words_def)
  have texts: "map cue_text (srtCues example_words) =
      [''Hello and welcome'', ''to the daily'', ''show.'']"
    by (simp add: example_cues)
  from count indices sizes texts joined show ?thesis
    by (intro conjI)
qed

lemma srtEntry_chunk:
  assumes "chunk \<noteq> []"
  shows "srtEntry (chunk_cue index chunk) =
     js_String index @ ''\<newline>'' @ formatTimestamp (w_start (hd chunk)) @ '' --> '' @
     formatTimestamp (w_end (last chunk)) @ ''\<newline>'' @ join '' '' (map w_word chunk) @ ''\<newline>''"
  unfolding srtEntry_def chunk_cue_fields [OF assms] by (rule refl)

text \<open>
  Claim C6. The caption file consists of one block per cue, in cue order: the
  index, a newline, the start time code, \<open> --> \<close>, the end time code, a
  newline, the text and a newline; consecutive blocks are separated by one
  empty line, and nothing follows the last block. The seven word transcript
  gives three blocks.
\<close>

theorem caption_file_layout:
  "createSRTFile words =
     join ''\<newline>''
       (map (\<lambda>k. js_String (k + 1) @ ''\<newline>'' @
                 formatTimestamp (w_start (hd (chunk_at words k))) @ '' --> '' @
                 formatTimestamp (w_end (last (chunk_at words k))) @ ''\<newline>'' @
                 join '' '' (map w_word (chunk_at words k)) @ ''\<newline>'')
          [0..<nat \<lceil>real (length words) / 3\<rceil>])
   \<and> createSRTFile example_words =
       ''1\<newline>00:00:00,000 --> 00:00:01,250\<newline>Hello and welcome\<newline>'' @ ''\<newline>'' @
       ''2\<newline>00:00:01,300 --> 00:00:02,000\<newline>to the daily\<newline>'' @ ''\<newline>'' @
       ''3\<newline>00:00:02,100 --> 00:00:02,750\<newline>show.\<newline>''"
proof -
  let ?n = "(length words + 2) div 3"
  have entry: "srtEntry (chunk_cue (k + 1) (chunk_at words k)) =
      js_String (k + 1) @ ''\<newline>'' @
      formatTimestamp (w_start (hd (chunk_at words k))) @ '' --> '' @
      formatTimestamp (w_end (last (chunk_at words k))) @ ''\<newline>'' @
      join '' '' (map w_word (chunk_at words k)) @ ''\<newline>''"
    if "k \<in> set [0..<?n]" for k
  proof -
    from that have "k < ?n"
      by simp
    from chunk_at_length(1) [OF this] have "chunk_at words k \<noteq> []"
      by auto
    then show ?thesis
      by (rule srtEntry_chunk)
  qed
  have "map srtEntry (srtCues words) =
      map (\<lambda>k. srtEntry (chunk_cue (k + 1) (chunk_at words k))) [0..<?n]"
    by (simp add: srtCues_chunks comp_def)
  also have "\<dots> =
      map (\<lambda>k. js_String (k + 1) @ ''\<newline>'' @
                formatTimestamp (w_start (hd (chunk_at words k))) @ '' --> '' @
                formatTimestamp (w_end (last (chunk_at words k))) @ ''\<newline>'' @
                join '' '' (map w_word (chunk_at words k)) @ ''\<newline>'') [0..<?n]"
    using entry by (rule map_cong [OF refl])
  finally have layout: "createSRTFile words =
     join ''\<newline>''
       (map (\<lambda>k. js_String (k + 1) @ ''\<newline>'' @
                 formatTimestamp (w_start (hd (chunk_at words k))) @ '' --> '' @
                 formatTimestamp (w_end (last (chunk_at words k))) @ ''\<newline>'' @
                 join '' '' (map w_word (chunk_at words k)) @ ''\<newline>'')
          [0..<nat \<lceil>real (length words) / 3\<rceil>])"
    unfolding createSRTFile_def ceil_div3 by (rule arg_cong)
  have example: "createSRTFile example_words =
       ''1\<newline>00:00:00,000 --> 00:00:01,250\<newline>Hello and welcome\<newline>'' @ ''\<newline>'' @
       ''2\<newline>00:00:01,300 --> 00:00:02,000\<newline>to the daily\<newline>'' @ ''\<newline>'' @
       ''3\<newline>00:00:02,100 --> 00:00:02,750\<newline>show.\<newline>''"
    by (simp add: createSRTFile_def example_cues srtEntry_def js_String.simps digit_char_def)
  from layout example show ?thesis
    by (rule conjI)
qed

text \<open>The older variants write the same blocks, with an empty line after the
  last block as well.\<close>

lemma concat_join:
  "xs \<noteq> [] \<Longrightarrow> concat (map (\<lambda>b. b @ sep) xs) = join sep xs @ sep"
  by (induction sep xs rule: join.induct) simp_all

lemma createSRTFile_legacy_eq:
  assumes "words \<noteq> []"
  shows "createSRTFile_legacy words = createSRTFile words @ ''\<newline>''"
proof -
  from assms have "0 < (length words + 2) div 3"
    by (cases words) simp_all
  then have "srtCues words \<noteq> []"
    by (simp add: srtCues_chunks)
  then have "map srtEntry (srtCues words) \<noteq> []"
    by simp
  from concat_join [OF this, of "''\<newline>''"] show ?thesis
    by (simp add: createSRTFile_legacy_def createSRTFile_def comp_def)
qed


section \<open>Pan and zoom effect\<close>

text \<open>
  The \<open>zoompan\<close> filter of the final encoding step is given the expressions
  \<open>z\<close>, \<open>x\<close> and \<open>y\<close> as text; in them \<open>mod(a, b)\<close> is
  \<open>a - floor(a / b) * b\<close>, \<open>lt(a, b)\<close> is \<open>a < b\<close>, \<open>iw\<close> and \<open>ih\<close> are the
  width and height of the input frame and \<open>zoom\<close> is the value of \<open>z\<close>. The
  variants of the handler differ only in the length of the ramp (0.3, 0.5 or
  1 second, with the ramp out ending at 5.3, 5.5 or 6) and in the horizontal
  factors (0.55 and 0.45, 0.60 and 0.40, or 0.65 and 0.35), which are
  arguments here; \<open>index.js\<close> and the replace variant use 0.3, 0.55 and 0.45.
  \<open>x\<close> and \<open>y\<close> are the top left corner of the window of \<open>iw / zoom\<close> by
  \<open>ih / zoom\<close> that is shown.
\<close>

definition ffmpeg_mod :: "real \<Rightarrow> real \<Rightarrow> real" where
  "ffmpeg_mod a b = a - of_int \<lfloor>a / b\<rfloor> * b"

definition zoompan_z :: "real \<Rightarrow> real \<Rightarrow> real" where
  "zoompan_z ramp time =
     (if ffmpeg_mod time 10 < ramp then 1 + (ffmpeg_mod time 10 / ramp) * 0.15
      else if ffmpeg_mod time 10 < 5 then 1.15
      else if ffmpeg_mod time 10 < 5 + ramp then 1.15 - ((ffmpeg_mod time 10 - 5) / ramp) * 0.15
      else 1)"

definition zoompan_x :: "real \<Rightarrow> real \<Rightarrow> real \<Rightarrow> real \<Rightarrow> real \<Rightarrow> real" where
  "zoompan_x right left iw zoom time =
     (if ffmpeg_mod time 30 < 10 then iw / 2 - (iw / zoom / 2)
      else if ffmpeg_mod time 30 < 20 then iw * right - (iw / zoom / 2)
      else iw * left - (iw / zoom / 2))"

definition zoompan_y :: "real \<Rightarrow> real \<Rightarrow> real" where
  "zoompan_y ih zoom = ih / 3 - (ih / zoom / 2)"

text \<open>The zoom of \<open>index.js\<close>.\<close>

definition zoom :: "real \<Rightarrow> real" where
  "zoom time = zoompan_z 0.3 time"

text \<open>The centre of the window that is shown, as a fraction of the width and
  of the height of the frame.\<close>

definition anchorX :: "real \<Rightarrow> real \<Rightarrow> real \<Rightarrow> real \<Rightarrow> real \<Rightarrow> real" where
  "anchorX ramp right left iw time =
     (zoompan_x right left iw (zoompan_z ramp time) time + iw / zoompan_z ramp time / 2) / iw"

definition anchorY :: "real \<Rightarrow> real \<Rightarrow> real \<Rightarrow> real" where
  "anchorY ramp ih time =
     (zoompan_y ih (zoompan_z ramp time) + ih / zoompan_z ramp time / 2) / ih"

section \<open>Properties of the effect\<close>

lemma ffmpeg_mod_range:
  assumes "0 < y"
  shows "0 \<le> ffmpeg_mod x y" and "ffmpeg_mod x y < y"
proof -
  have xy: "(x / y) * y = x"
    using assms by simp
  have "of_int \<lfloor>x / y\<rfloor> \<le> x / y"
    by (rule of_int_floor_le)
  with assms have "of_int \<lfloor>x / y\<rfloor> * y \<le> (x / y) * y"
    by (simp only: mult_le_cancel_right_pos)
  then show "0 \<le> ffmpeg_mod x y"
    unfolding ffmpeg_mod_def xy by simp
  have "x / y < of_int \<lfloor>x / y\<rfloor> + 1"
    by linarith
  with assms have "(x / y) * y < (of_int \<lfloor>x / y\<rfloor> + 1) * y"
    by (simp only: mult_less_cancel_right_pos)
  then show "ffmpeg_mod x y < y"
    unfolding ffmpeg_mod_def xy by (simp add: algebra_simps)
qed

lemma ffmpeg_mod_period:
  assumes "0 < y"
  shows "ffmpeg_mod (x + y) y = ffmpeg_mod x y"
proof -
  from assms have "(x + y) / y = x / y + 1"
    by (simp add: add_divide_distrib)
  then have "\<lfloor>(x + y) / y\<rfloor> = \<lfloor>x / y\<rfloor> + 1"
    by simp
  then show ?thesis
    by (simp add: ffmpeg_mod_def algebra_simps)
qed

lemma zoompan_z_bounds:
  assumes "0 \<le> time" and "0 < ramp"
  shows "1 \<le> zoompan_z ramp time \<and> zoompan_z ramp time \<le> 1.15"
proof -
  define m where "m = ffmpeg_mod time 10"
  have m: "0 \<le> m"
    unfolding m_def using assms(1) by (simp add: ffmpeg_mod_range)
  consider (up) "m < ramp" | (hold) "\<not> m < ramp" "m < 5"
    | (down) "\<not> m < ramp" "\<not> m < 5" "m < 5 + ramp" | (rest) "\<not> m < ramp" "\<not> m < 5" "\<not> m < 5 + ramp"
    by blast
  then show ?thesis
  proof cases
    case up
    define u where "u = m / ramp"
    from up m assms(2) have "0 \<le> u" and "u \<le> 1"
      by (simp_all add: u_def)
    moreover from up have "zoompan_z ramp time = 1 + u * 0.15"
      by (simp add: zoompan_z_def m_def [symmetric] u_def)
    ultimately show ?thesis
      by simp
  next
    case hold
    then have "zoompan_z ramp time = 1.15"
      by (simp add: zoompan_z_def m_def [symmetric])
    then show ?thesis
      by simp
  next
    case down
    define u where "u = (m - 5) / ramp"
    from down assms(2) have "0 \<le> u" and "u \<le> 1"
      by (simp_all add: u_def)
    moreover from down have "zoompan_z ramp time = 1.15 - u * 0.15"
      by (simp add: zoompan_z_def m_def [symmetric] u_def)
    ultimately show ?thesis
      by simp
  next
    case rest
    then have "zoompan_z ramp time = 1"
      by (simp add: zoompan_z_def m_def [symmetric])
    then show ?thesis
      by simp
  qed
qed


lemma anchor_values:
  assumes "0 \<le> time" and "0 < ramp"
  shows "0 < iw \<Longrightarrow> anchorX ramp right left iw time =
           (if ffmpeg_mod time 30 < 10 then 1 / 2 else if ffmpeg_mod time 30 < 20 then right else left)"
    and "0 < ih \<Longrightarrow> anchorY ramp ih time = 1 / 3"
proof -
  from zoompan_z_bounds [OF assms] have "zoompan_z ramp time \<noteq> 0"
    by auto
  then show "0 < iw \<Longrightarrow> anchorX ramp right left iw time =
           (if ffmpeg_mod time 30 < 10 then 1 / 2 else if ffmpeg_mod time 30 < 20 then right else left)"
    by (simp add: anchorX_def zoompan_x_def field_simps)
  show "0 < ih \<Longrightarrow> anchorY ramp ih time = 1 / 3"
    by (simp add: anchorY_def zoompan_y_def field_simps)
qed

text \<open>
  Claim C9. For every playback time that is not negative the zoom scale lies
  between 1 and 1.15, and the horizontal and vertical anchor, the centre of
  the window shown, lies between 0 and 1 of the frame's width and height: the
  horizontal anchor is 1/2 or one of the two factors, the vertical anchor is
  1/3. This holds for every ramp length and every pair of horizontal factors
  between 0 and 1, so for all variants of the handler.
\<close>

theorem effect_bounds:
  assumes "0 \<le> time" and "0 < ramp" and "0 < iw" and "0 < ih"
    and "0 \<le> right \<and> right \<le> 1" and "0 \<le> left \<and> left \<le> 1"
  shows "1 \<le> zoompan_z ramp time \<and> zoompan_z ramp time \<le> 1 + 0.15
       \<and> 0 \<le> anchorX ramp right left iw time \<and> anchorX ramp right left iw time \<le> 1
       \<and> 0 \<le> anchorY ramp ih time \<and> anchorY ramp ih time \<le> 1"
proof -
  from zoompan_z_bounds [OF assms(1,2)] have "1 \<le> zoompan_z ramp time \<and> zoompan_z ramp time \<le> 1 + 0.15"
    by simp
  moreover from assms(5,6) have "0 \<le> anchorX ramp right left iw time \<and> anchorX ramp right left iw time \<le> 1"
    unfolding anchor_values(1) [OF assms(1,2,3)] by simp
  moreover have "0 \<le> anchorY ramp ih time \<and> anchorY ramp ih time \<le> 1"
    unfolding anchor_values(2) [OF assms(1,2,4)] by simp
  ultimately show ?thesis
    by blast
qed

text \<open>The window itself is not inside the frame: its top edge \<open>y\<close> is above
  the frame at every time, and the filter is left to clamp it.\<close>

lemma crop_origin_above_frame:
  assumes "0 \<le> time" and "0 < ramp" and "0 < ih"
  shows "zoompan_y ih (zoompan_z ramp time) < 0"
proof -
  define z where "z = zoompan_z ramp time"
  from zoompan_z_bounds [OF assms(1,2)] have z: "1 \<le> z" "z \<le> 1.15"
    by (simp_all add: z_def)
  then have "2 * z < 3"
    by simp
  with z(1) have "1 / 3 < 1 / (2 * z)"
    by (simp add: field_simps)
  with assms(3) have "ih * (1 / 3) < ih * (1 / (2 * z))"
    by (simp only: mult_less_cancel_left_pos)
  then show ?thesis
    unfolding z_def [symmetric] zoompan_y_def by (simp add: field_simps)
qed

text \<open>
  Claim C8, amended. With \<open>m = t mod 10\<close>, the zoom scale of \<open>index.js\<close>
  ramps linearly from 1 to 1.15 over the first 0.3 seconds of the cycle, holds
  1.15 until \<open>m = 5\<close>, ramps linearly back to 1 over the 0.3 seconds from
  \<open>m = 5\<close> to \<open>m = 5.3\<close> and stays at 1 for the rest of the cycle of 10
  seconds.
\<close>

theorem zoom_cycle:
  assumes "0 \<le> time"
  shows "0 \<le> ffmpeg_mod time 10 \<and> ffmpeg_mod time 10 < 10
       \<and> (ffmpeg_mod time 10 < 0.3 \<longrightarrow> zoom time = 1 + (ffmpeg_mod time 10 / 0.3) * 0.15)
       \<and> (0.3 \<le> ffmpeg_mod time 10 \<and> ffmpeg_mod time 10 < 5 \<longrightarrow> zoom time = 1 + 0.15)
       \<and> (5 \<le> ffmpeg_mod time 10 \<and> ffmpeg_mod time 10 < 5.3 \<longrightarrow>
            zoom time = 1 + 0.15 - ((ffmpeg_mod time 10 - 5) / 0.3) * 0.15)
       \<and> (5.3 \<le> ffmpeg_mod time 10 \<longrightarrow> zoom time = 1)
       \<and> zoom (time + 10) = zoom time"
proof -
  have range: "0 \<le> ffmpeg_mod time 10 \<and> ffmpeg_mod time 10 < 10"
    using assms by (simp add: ffmpeg_mod_range)
  have period: "zoom (time + 10) = zoom time"
    using assms by (simp add: zoom_def zoompan_z_def ffmpeg_mod_period)
  have pieces: "(ffmpeg_mod time 10 < 0.3 \<longrightarrow> zoom time = 1 + (ffmpeg_mod time 10 / 0.3) * 0.15)
       \<and> (0.3 \<le> ffmpeg_mod time 10 \<and> ffmpeg_mod time 10 < 5 \<longrightarrow> zoom time = 1 + 0.15)
       \<and> (5 \<le> ffmpeg_mod time 10 \<and> ffmpeg_mod time 10 < 5.3 \<longrightarrow>
            zoom time = 1 + 0.15 - ((ffmpeg_mod time 10 - 5) / 0.3) * 0.15)
       \<and> (5.3 \<le> ffmpeg_mod time 10 \<longrightarrow> zoom time = 1)"
    by (simp add: zoom_def zoompan_z_def)
  from range pieces period show ?thesis
    by blast
qed

text \<open>
  Claim C8, as stated, has the scale hold \<open>1 + \<Delta>\<close> until \<open>10 - rampOut\<close>.
  At \<open>t = 7\<close>, which is after the ramp in and before \<open>10 - rampOut\<close>, the
  scale is already back at 1.
\<close>

theorem zoom_hold_ends_at_5:
  "ffmpeg_mod 7 10 = 7
   \<and> (0.3 :: real) \<le> ffmpeg_mod 7 10 \<and> ffmpeg_mod 7 10 < 10 - 0.3
   \<and> zoom 7 = 1
   \<and> zoom 7 \<noteq> 1 + 0.15"
  by (simp add: zoom_def zoompan_z_def ffmpeg_mod_def)

theorem zoom_cycle_witness:
  "(0 :: real) \<le> 12.1
   \<and> ffmpeg_mod 12.1 10 = 2.1
   \<and> zoom 12.1 = 1 + 0.15
   \<and> zoom (12.1 + 10) = zoom 12.1"
proof -
  have h: "(0 :: real) \<le> 12.1"
    by simp
  have m: "ffmpeg_mod 12.1 10 = 2.1"
    by (simp add: ffmpeg_mod_def)
  note run = zoom_cycle [OF h]
  from run have "0.3 \<le> ffmpeg_mod 12.1 10 \<and> ffmpeg_mod 12.1 10 < 5 \<longrightarrow> zoom 12.1 = 1 + 0.15"
    by blast
  moreover have "0.3 \<le> ffmpeg_mod 12.1 10 \<and> ffmpeg_mod 12.1 10 < 5"
    unfolding m by simp
  ultimately have hold: "zoom 12.1 = 1 + 0.15"
    by (rule mp)
  from run have period: "zoom (12.1 + 10) = zoom 12.1"
    by blast
  from h m hold period show ?thesis
    by (intro conjI)
qed

theorem effect_bounds_witness:
  "(0 :: real) \<le> 12.1
   \<and> zoompan_z 0.3 12.1 = 1.15
   \<and> 1 \<le> zoompan_z 0.3 12.1 \<and> zoompan_z 0.3 12.1 \<le> 1 + 0.15
   \<and> anchorX 0.3 0.55 0.45 720 12.1 = 0.55
   \<and> 0 \<le> anchorX 0.3 0.55 0.45 720 12.1 \<and> anchorX 0.3 0.55 0.45 720 12.1 \<le> 1
   \<and> 0 \<le> anchorY 0.3 1280 12.1 \<and> anchorY 0.3 1280 12.1 \<le> 1"
proof -
  have h: "(0 :: real) \<le> 12.1" "(0 :: real) < 0.3" "(0 :: real) < 720" "(0 :: real) < 1280"
    "(0 :: real) \<le> 0.55 \<and> (0.55 :: real) \<le> 1" "(0 :: real) \<le> 0.45 \<and> (0.45 :: real) \<le> 1"
    by simp_all
  have m: "ffmpeg_mod 12.1 10 = 2.1" "ffmpeg_mod 12.1 30 = 12.1"
    by (simp_all add: ffmpeg_mod_def)
  have z: "zoompan_z 0.3 12.1 = 1.15"
    by (simp add: zoompan_z_def m)
  have x: "anchorX 0.3 0.55 0.45 720 12.1 = 0.55"
    by (simp add: anchorX_def zoompan_x_def z m)
  from effect_bounds [OF h] h(1) z x show ?thesis
    by (intro conjI) blast+
qed

end
